theory Spec2Isabelle
  imports Complex_Main "HOL-Library.AList" "HOL-Library.Multiset" "HOL-Library.Product_Lexorder" "HOL-Library.Code_Target_Nat"
begin

section \<open>Data model\<close>

text \<open>
  The generator (\<^verbatim>\<open>src/utils/sudokuGenerator.ts\<close>) works on JavaScript arrays of numbers.
  Arrays that are shared between functions live in an explicit store: an address is an
  index into \<open>heap\<close>, and a fresh array is allocated at the end of the store. A grid
  handed to \<open>createPuzzle\<close> is an array of row references (\<open>GridRef\<close>); its contents
  are read through the store (\<open>gridOf\<close>).

  \<open>Math.random()\<close> is a parameter \<open>rnd\<close>: the \<open>p\<close>-th call of a run returns the
  draw \<open>rnd p\<close>, and \<open>Math.floor(Math.random() * k)\<close> is \<open>rnd p mod k\<close>, so that
  every index below \<open>k\<close> can be drawn. The state counts the draws made (\<open>rpos\<close>).
\<close>

type_synonym addr = nat
type_synonym Grid = "nat list list"
type_synonym GridRef = "addr list"

datatype Difficulty = Easy | Medium | Hard | ExtremelyHard

record BoxDimensions =
  rows :: nat
  cols :: nat

text \<open>Both failures are a plain \<open>Error\<close> in the source; they differ by their message.\<close>

datatype error = UnsupportedSizeError | GenerationFailureError

record state =
  heap :: "nat list list"
  digitsCache :: "nat \<rightharpoonup> addr"
  rpos :: nat

definition alloc :: "nat list \<Rightarrow> state \<Rightarrow> addr \<times> state" where
  "alloc xs st = (length (heap st), st\<lparr>heap := heap st @ [xs]\<rparr>)"

definition gridOf :: "nat list list \<Rightarrow> GridRef \<Rightarrow> Grid" where
  "gridOf h g = map (\<lambda>a. h ! a) g"

definition randomIndex :: "(nat \<Rightarrow> nat) \<Rightarrow> nat \<Rightarrow> nat \<Rightarrow> nat" where
  "randomIndex rnd p k = rnd p mod k"

section \<open>Sizes and box shapes\<close>

definition VALID_SIZES :: "nat list" where
  "VALID_SIZES = [4, 6, 9]"

definition isValidSize :: "nat \<Rightarrow> bool" where
  "isValidSize sz = list_ex (\<lambda>validSize. validSize = sz) VALID_SIZES"

definition assertValidSize :: "nat \<Rightarrow> error + unit" where
  "assertValidSize sz = (if \<not> isValidSize sz then Inl UnsupportedSizeError else Inr ())"

definition getBoxDimensions :: "nat \<Rightarrow> error + BoxDimensions" where
  "getBoxDimensions sz =
     (if sz = 9 then Inr \<lparr>rows = 3, cols = 3\<rparr>
      else if sz = 6 then Inr \<lparr>rows = 2, cols = 3\<rparr>
      else if sz = 4 then Inr \<lparr>rows = 2, cols = 2\<rparr>
      else Inl UnsupportedSizeError)"

text \<open>
  \<^verbatim>\<open>size / boxDims.cols\<close> is a floating-point division in the source. It is only computed
  after \<open>getBoxDimensions\<close> has returned, that is for 4/2, 6/3 and 9/3, where it is exact.
\<close>

definition boxesPerRowOf :: "nat \<Rightarrow> BoxDimensions \<Rightarrow> nat" where
  "boxesPerRowOf sz boxDims = sz div cols boxDims"

definition getBoxIndex :: "nat \<Rightarrow> nat \<Rightarrow> BoxDimensions \<Rightarrow> nat \<Rightarrow> nat" where
  "getBoxIndex row col boxDims sz =
     (let boxRow = row div rows boxDims;
          boxCol = col div cols boxDims;
          boxesPerRow = boxesPerRowOf sz boxDims
      in boxRow * boxesPerRow + boxCol)"

definition getSpatialRegion :: "nat \<Rightarrow> nat \<Rightarrow> nat \<Rightarrow> nat" where
  "getSpatialRegion row col sz =
     (let regionSize = (sz + 2) div 3;
          regionRow = row div regionSize;
          regionCol = col div regionSize
      in regionRow * 3 + regionCol)"

section \<open>Removing cells: createPuzzle\<close>

text \<open>
  The variables that the closures \<open>removeCell\<close> and \<open>getCellPriority\<close> of
  \<open>createPuzzle\<close> capture, with the store and the draw counter they run on. A key
  \<^verbatim>\<open>`${row},${col}`\<close> of \<open>removedCells\<close> is the pair \<open>(row, col)\<close>. A \<open>Map\<close> is
  an association list in insertion order: \<open>get\<close> is \<open>map_of\<close>, \<open>set\<close> is
  \<open>AList.update\<close>.
\<close>

record RemovalState =
  puzzle :: GridRef
  store :: "nat list list"
  draws :: nat
  removedCells :: "(nat \<times> nat) set"
  rowRemovalCounts :: "nat list"
  colRemovalCounts :: "nat list"
  boxRemovalCounts :: "(nat \<times> nat) list"
  spatialRegionCounts :: "(nat \<times> nat) list"
  rowsWithRemovals :: "nat set"
  colsWithRemovals :: "nat set"
  boxesWithRemovals :: "nat set"

definition getOr0 :: "(nat \<times> nat) list \<Rightarrow> nat \<Rightarrow> nat" where
  "getOr0 m k = (case map_of m k of None \<Rightarrow> 0 | Some v \<Rightarrow> v)"

definition removeCell :: "nat \<Rightarrow> BoxDimensions \<Rightarrow> nat \<Rightarrow> nat \<Rightarrow> RemovalState \<Rightarrow> RemovalState" where
  "removeCell sz boxDims row col rs =
     (if (row, col) \<in> removedCells rs then rs
      else
        let a = puzzle rs ! row;
            boxIdx = getBoxIndex row col boxDims sz;
            spatialRegion = getSpatialRegion row col sz
        in rs\<lparr>store := (store rs)[a := (store rs ! a)[col := 0]],
               removedCells := insert (row, col) (removedCells rs),
               rowRemovalCounts := (rowRemovalCounts rs)[row := rowRemovalCounts rs ! row + 1],
               colRemovalCounts := (colRemovalCounts rs)[col := colRemovalCounts rs ! col + 1],
               boxRemovalCounts :=
                 AList.update boxIdx (getOr0 (boxRemovalCounts rs) boxIdx + 1) (boxRemovalCounts rs),
               spatialRegionCounts :=
                 AList.update spatialRegion (getOr0 (spatialRegionCounts rs) spatialRegion + 1)
                   (spatialRegionCounts rs),
               rowsWithRemovals := insert row (rowsWithRemovals rs),
               colsWithRemovals := insert col (colsWithRemovals rs),
               boxesWithRemovals := insert boxIdx (boxesWithRemovals rs)\<rparr>)"

text \<open>The priority is a multiple of one half; it is computed exactly, as the doubles are.\<close>

definition getCellPriority :: "nat \<Rightarrow> BoxDimensions \<Rightarrow> RemovalState \<Rightarrow> nat \<Rightarrow> nat \<Rightarrow> rat" where
  "getCellPriority sz boxDims rs row col =
     (let boxIdx = getBoxIndex row col boxDims sz;
          rowCount = rowRemovalCounts rs ! row;
          colCount = colRemovalCounts rs ! col;
          boxCount = getOr0 (boxRemovalCounts rs) boxIdx;
          spatialRegion = getSpatialRegion row col sz;
          spatialCount = getOr0 (spatialRegionCounts rs) spatialRegion
      in of_nat rowCount + of_nat colCount + of_nat boxCount + of_nat spatialCount * (3 / 2))"

text \<open>
  \<open>Array.prototype.sort\<close> is stable, and so is \<open>sort_key\<close>; the comparator
  \<open>(a, b) => a[1] - b[1]\<close> orders by the priority.
\<close>

definition pickTop :: "(nat \<Rightarrow> nat) \<Rightarrow> ('a \<times> rat) list \<Rightarrow> RemovalState \<Rightarrow> 'a \<times> RemovalState" where
  "pickTop rnd available rs =
     (let sorted = sort_key snd available;
          topOptions = take (min 3 (length sorted)) sorted;
          k = randomIndex rnd (draws rs) (length topOptions)
      in (fst (topOptions ! k), rs\<lparr>draws := draws rs + 1\<rparr>))"

definition step1_row :: "(nat \<Rightarrow> nat) \<Rightarrow> nat \<Rightarrow> BoxDimensions \<Rightarrow> nat \<Rightarrow> RemovalState \<Rightarrow> RemovalState" where
  "step1_row rnd sz boxDims row rs =
     (if row \<notin> rowsWithRemovals rs then
        let availableCols =
              map (\<lambda>col. (col, getCellPriority sz boxDims rs row col))
                (filter (\<lambda>col. (row, col) \<notin> removedCells rs) [0..<sz])
        in if length availableCols > 0 then
             let (randomCol, rs') = pickTop rnd availableCols rs
             in removeCell sz boxDims row randomCol rs'
           else rs
      else rs)"

definition step1 :: "(nat \<Rightarrow> nat) \<Rightarrow> nat \<Rightarrow> BoxDimensions \<Rightarrow> RemovalState \<Rightarrow> RemovalState" where
  "step1 rnd sz boxDims rs = fold (step1_row rnd sz boxDims) [0..<sz] rs"

definition step2_col :: "(nat \<Rightarrow> nat) \<Rightarrow> nat \<Rightarrow> BoxDimensions \<Rightarrow> nat \<Rightarrow> RemovalState \<Rightarrow> RemovalState" where
  "step2_col rnd sz boxDims col rs =
     (if col \<notin> colsWithRemovals rs then
        let availableRows =
              map (\<lambda>row. (row, getCellPriority sz boxDims rs row col))
                (filter (\<lambda>row. (row, col) \<notin> removedCells rs) [0..<sz])
        in if length availableRows > 0 then
             let (randomRow, rs') = pickTop rnd availableRows rs
             in removeCell sz boxDims randomRow col rs'
           else rs
      else rs)"

definition step2 :: "(nat \<Rightarrow> nat) \<Rightarrow> nat \<Rightarrow> BoxDimensions \<Rightarrow> RemovalState \<Rightarrow> RemovalState" where
  "step2 rnd sz boxDims rs = fold (step2_col rnd sz boxDims) [0..<sz] rs"

definition step3_box :: "(nat \<Rightarrow> nat) \<Rightarrow> nat \<Rightarrow> BoxDimensions \<Rightarrow> nat \<Rightarrow> RemovalState \<Rightarrow> RemovalState" where
  "step3_box rnd sz boxDims boxIdx rs =
     (if boxIdx \<notin> boxesWithRemovals rs then
        let boxesPerRow = boxesPerRowOf sz boxDims;
            boxRow = boxIdx div boxesPerRow;
            boxCol = boxIdx mod boxesPerRow;
            startRow = boxRow * rows boxDims;
            startCol = boxCol * cols boxDims;
            availableCells =
              map (\<lambda>(row, col). ((row, col), getCellPriority sz boxDims rs row col))
                (filter (\<lambda>(row, col). (row, col) \<notin> removedCells rs)
                  (map (\<lambda>(i, j). (startRow + i, startCol + j))
                    (List.product [0..<rows boxDims] [0..<cols boxDims])))
        in if length availableCells > 0 then
             let ((randomRow, randomCol), rs') = pickTop rnd availableCells rs
             in removeCell sz boxDims randomRow randomCol rs'
           else rs
      else rs)"

definition step3 :: "(nat \<Rightarrow> nat) \<Rightarrow> nat \<Rightarrow> BoxDimensions \<Rightarrow> RemovalState \<Rightarrow> RemovalState" where
  "step3 rnd sz boxDims rs =
     (let boxesPerRow = boxesPerRowOf sz boxDims
      in fold (step3_box rnd sz boxDims) [0..<boxesPerRow * boxesPerRow] rs)"

text \<open>
  Step 4. An entry of \<open>positionsByColumn\<close> is the tuple
  \<open>[row, col, priority, spatialRegion]\<close>; the priority is the one computed when the
  map was built. The comparator of the sort orders by priority, then by region.
\<close>

type_synonym Position = "nat \<times> nat \<times> rat \<times> nat"

definition addPosition ::
  "nat \<Rightarrow> BoxDimensions \<Rightarrow> RemovalState \<Rightarrow> nat \<times> nat \<Rightarrow> (nat \<times> Position list) list
   \<Rightarrow> (nat \<times> Position list) list" where
  "addPosition sz boxDims rs cell m =
     (case cell of (i, j) \<Rightarrow>
        if (i, j) \<notin> removedCells rs then
          let priority = getCellPriority sz boxDims rs i j;
              spatialRegion = getSpatialRegion i j sz;
              m' = (if map_of m j = None then AList.update j [] m else m)
          in AList.update j (the (map_of m' j) @ [(i, j, priority, spatialRegion)]) m'
        else m)"

definition buildPositionsByColumn ::
  "nat \<Rightarrow> BoxDimensions \<Rightarrow> RemovalState \<Rightarrow> (nat \<times> Position list) list" where
  "buildPositionsByColumn sz boxDims rs =
     fold (addPosition sz boxDims rs) (List.product [0..<sz] [0..<sz]) []"

definition sortPositions :: "(nat \<times> Position list) list \<Rightarrow> (nat \<times> Position list) list" where
  "sortPositions m =
     map (\<lambda>(col, positions). (col, sort_key (\<lambda>(i, j, priority, region). (priority, region)) positions)) m"

definition countPositions :: "(nat \<times> Position list) list \<Rightarrow> nat" where
  "countPositions m = fold (\<lambda>arr sum. sum + length arr) (map snd m) 0"

definition sortColumnOrder :: "RemovalState \<Rightarrow> nat list \<Rightarrow> nat list" where
  "sortColumnOrder rs columnOrder = sort_key (\<lambda>c. colRemovalCounts rs ! c) columnOrder"

text \<open>
  The scan of the first five entries of a column for the best one; \<open>considerIndex\<close> is
  the body of its loop on \<open>(bestIndex, bestPriority, bestSpatialRegion)\<close>.
\<close>

definition considerIndex ::
  "RemovalState \<Rightarrow> Position list \<Rightarrow> nat \<Rightarrow> nat \<times> rat \<times> nat \<Rightarrow> nat \<times> rat \<times> nat" where
  "considerIndex rs columnPositions idx best =
     (case best of (bestIndex, bestPriority, bestSpatialRegion) \<Rightarrow>
        (case columnPositions ! idx of (_, _, priority, spatialRegion) \<Rightarrow>
           let spatialCount = getOr0 (spatialRegionCounts rs) spatialRegion
           in if priority < bestPriority \<or>
                 (priority = bestPriority \<and>
                  spatialCount < getOr0 (spatialRegionCounts rs) bestSpatialRegion)
              then (idx, priority, spatialRegion)
              else (bestIndex, bestPriority, bestSpatialRegion)))"

definition findBestIndex :: "RemovalState \<Rightarrow> Position list \<Rightarrow> nat" where
  "findBestIndex rs columnPositions =
     fst (fold (considerIndex rs columnPositions)
            [0..<min (length columnPositions) 5]
            (0, fst (snd (snd (columnPositions ! 0))), snd (snd (snd (columnPositions ! 0)))))"

text \<open>
  The loop \<^verbatim>\<open>for (const col of columnOrder)\<close>: the array iterator reads
  \<open>columnOrder[idx]\<close> for \<open>idx = 0, 1, ...\<close> from the array as it is at that moment,
  and the body sorts the array in place after each removal.
\<close>

record RoundState =
  columnOrder :: "nat list"
  positionsByColumn :: "(nat \<times> Position list) list"
  removedCount :: nat
  foundAny :: bool
  rstate :: RemovalState

function roundLoop :: "nat \<Rightarrow> BoxDimensions \<Rightarrow> nat \<Rightarrow> nat \<Rightarrow> RoundState \<Rightarrow> RoundState" where
  "roundLoop sz boxDims cellsToRemoveNow idx s =
     (if idx < length (columnOrder s) then
        let col = columnOrder s ! idx
        in if removedCount s \<ge> cellsToRemoveNow then s
           else
             (case map_of (positionsByColumn s) col of
                None \<Rightarrow> roundLoop sz boxDims cellsToRemoveNow (idx + 1) s
              | Some columnPositions \<Rightarrow>
                  if length columnPositions = 0 then roundLoop sz boxDims cellsToRemoveNow (idx + 1) s
                  else
                    let bestIndex = findBestIndex (rstate s) columnPositions;
                        (row, removedCol, _, _) = columnPositions ! bestIndex;
                        spliced = take bestIndex columnPositions @ drop (Suc bestIndex) columnPositions;
                        rs' = removeCell sz boxDims row removedCol (rstate s)
                    in roundLoop sz boxDims cellsToRemoveNow (idx + 1)
                         (s\<lparr>columnOrder := sortColumnOrder rs' (columnOrder s),
                            positionsByColumn := AList.update col spliced (positionsByColumn s),
                            removedCount := removedCount s + 1,
                            foundAny := True,
                            rstate := rs'\<rparr>))
      else s)"
  by pat_completeness auto
termination
  by (relation "measure (\<lambda>(sz, boxDims, cellsToRemoveNow, idx, s). length (columnOrder s) - idx)")
     (auto simp: sortColumnOrder_def)

declare roundLoop.simps [simp del]

lemma roundLoop_removedCount:
  "removedCount s \<le> removedCount (roundLoop sz boxDims cellsToRemoveNow idx s) \<and>
   (foundAny (roundLoop sz boxDims cellsToRemoveNow idx s) \<longrightarrow>
      foundAny s \<or> removedCount s < removedCount (roundLoop sz boxDims cellsToRemoveNow idx s))"
proof (induction sz boxDims cellsToRemoveNow idx s rule: roundLoop.induct)
  case (1 sz boxDims cellsToRemoveNow idx s)
  show ?case
  proof (cases "idx < length (columnOrder s) \<and> removedCount s < cellsToRemoveNow")
    case False
    then show ?thesis
      by (subst (1 2 3) roundLoop.simps) (auto simp: Let_def)
  next
    case active: True
    show ?thesis
    proof (cases "map_of (positionsByColumn s) (columnOrder s ! idx)")
      case None
      with active 1(1)[OF _ refl _ None] show ?thesis
        by (subst (1 2 3) roundLoop.simps) (simp add: Let_def)
    next
      case (Some columnPositions)
      show ?thesis
      proof (cases "length columnPositions = 0")
        case True
        with active Some 1(2)[OF _ refl _ Some True] show ?thesis
          by (subst (1 2 3) roundLoop.simps) (simp add: Let_def)
      next
        case False
        obtain row removedCol p r where
          best: "columnPositions ! findBestIndex (rstate s) columnPositions = (row, removedCol, p, r)"
          by (metis prod_cases4)
        from active Some False best
          1(3)[OF _ refl _ Some False refl best[symmetric] refl refl refl refl refl]
        show ?thesis
          by (subst (1 2 3) roundLoop.simps) (auto simp: Let_def)
      qed
    qed
  qed
qed

text \<open>
  The loop \<^verbatim>\<open>while (removedCount < cellsToRemoveNow)\<close>. The counter \<open>round\<close> of the
  source is only ever incremented and is left out.
\<close>

function whileLoop :: "nat \<Rightarrow> BoxDimensions \<Rightarrow> nat \<Rightarrow> RoundState \<Rightarrow> RoundState" where
  "whileLoop sz boxDims cellsToRemoveNow s =
     (if removedCount s < cellsToRemoveNow then
        let s' = roundLoop sz boxDims cellsToRemoveNow 0 (s\<lparr>foundAny := False\<rparr>)
        in if \<not> foundAny s' then s'
           else whileLoop sz boxDims cellsToRemoveNow s'
      else s)"
  by pat_completeness auto
termination
proof (relation "measure (\<lambda>(sz, boxDims, cellsToRemoveNow, s). cellsToRemoveNow - removedCount s)")
  show "wf (measure (\<lambda>(sz, boxDims, cellsToRemoveNow, s). cellsToRemoveNow - removedCount s))"
    by simp
next
  fix sz boxDims cellsToRemoveNow s s'
  assume lt: "removedCount s < cellsToRemoveNow"
    and s': "s' = roundLoop sz boxDims cellsToRemoveNow 0 (s\<lparr>foundAny := False\<rparr>)"
    and found: "\<not> \<not> foundAny s'"
  from roundLoop_removedCount[of "s\<lparr>foundAny := False\<rparr>" sz boxDims cellsToRemoveNow 0] s' found
  have "removedCount s < removedCount s'" by simp
  with lt show "((sz, boxDims, cellsToRemoveNow, s'), (sz, boxDims, cellsToRemoveNow, s))
      \<in> measure (\<lambda>(sz, boxDims, cellsToRemoveNow, s). cellsToRemoveNow - removedCount s)"
    by simp
qed

declare whileLoop.simps [simp del]

text \<open>The fallback of step 4: a flat ranking of all cells still present.\<close>

definition fallback :: "nat \<Rightarrow> BoxDimensions \<Rightarrow> nat \<Rightarrow> RemovalState \<Rightarrow> RemovalState" where
  "fallback sz boxDims stillNeed rs =
     (let remainingPositions =
            map (\<lambda>(i, j). ((i, j), getCellPriority sz boxDims rs i j))
              (filter (\<lambda>(i, j). (i, j) \<notin> removedCells rs) (List.product [0..<sz] [0..<sz]));
          sorted = sort_key snd remainingPositions
      in fold (\<lambda>i rs'. case fst (sorted ! i) of (row, col) \<Rightarrow> removeCell sz boxDims row col rs')
           [0..<min stillNeed (length sorted)] rs)"

definition step4 :: "nat \<Rightarrow> BoxDimensions \<Rightarrow> nat \<Rightarrow> RemovalState \<Rightarrow> RemovalState" where
  "step4 sz boxDims targetCellsToRemove rs =
     (let currentRemoved = card (removedCells rs);
          additionalToRemove = max 0 (targetCellsToRemove - currentRemoved)
      in if additionalToRemove > 0 then
           let positions = sortPositions (buildPositionsByColumn sz boxDims rs);
               cellsToRemoveNow = min additionalToRemove (countPositions positions);
               order = sortColumnOrder rs [0..<sz];
               s = whileLoop sz boxDims cellsToRemoveNow
                     \<lparr>columnOrder = order, positionsByColumn = positions,
                      removedCount = 0, foundAny = False, rstate = rs\<rparr>
           in if removedCount s < cellsToRemoveNow
              then fallback sz boxDims (cellsToRemoveNow - removedCount s) (rstate s)
              else rstate s
         else rs)"

text \<open>
  The fill fractions are decimal literals in the source and the target is
  \<^verbatim>\<open>Math.floor(totalCells * (1 - percentages[difficulty]))\<close> in double arithmetic. For the
  cell counts 16, 36 and 81 the exact product lies at least 0.08 away from every integer,
  far more than the rounding error of the doubles, so the exact floor is the source's.
\<close>

definition percentages :: "Difficulty \<Rightarrow> rat" where
  "percentages d = (case d of Easy \<Rightarrow> 65 / 100 | Medium \<Rightarrow> 40 / 100
                    | Hard \<Rightarrow> 34 / 100 | ExtremelyHard \<Rightarrow> 28 / 100)"

definition targetCellsToRemove :: "nat \<Rightarrow> Difficulty \<Rightarrow> nat" where
  "targetCellsToRemove sz difficulty =
     (let totalCells = sz * sz
      in nat \<lfloor>of_nat totalCells * (1 - percentages difficulty)\<rfloor>)"

text \<open>\<^verbatim>\<open>grid.map(row => [...row])\<close>: every row is copied into a fresh array.\<close>

definition copyRows :: "GridRef \<Rightarrow> state \<Rightarrow> GridRef \<times> state" where
  "copyRows grid st =
     fold (\<lambda>a (copied, st'). case alloc (heap st' ! a) st' of (b, st'') \<Rightarrow> (copied @ [b], st''))
       grid ([], st)"

definition initRemovalState :: "nat \<Rightarrow> BoxDimensions \<Rightarrow> GridRef \<Rightarrow> state \<Rightarrow> RemovalState" where
  "initRemovalState sz boxDims puzzleRef st =
     (let boxesPerRow = boxesPerRowOf sz boxDims
      in \<lparr>puzzle = puzzleRef, store = heap st, draws = rpos st,
          removedCells = {},
          rowRemovalCounts = replicate sz 0,
          colRemovalCounts = replicate sz 0,
          boxRemovalCounts = fold (\<lambda>i m. AList.update i 0 m) [0..<boxesPerRow * boxesPerRow] [],
          spatialRegionCounts = fold (\<lambda>i m. AList.update i 0 m) [0..<9] [],
          rowsWithRemovals = {}, colsWithRemovals = {}, boxesWithRemovals = {}\<rparr>)"

text \<open>
  The four steps in order, and the result: the puzzle with the store and the draw counter
  the steps have left. \<open>createPuzzleOn\<close> is the body of \<open>createPuzzle\<close> after the copy.
\<close>

definition runSteps :: "(nat \<Rightarrow> nat) \<Rightarrow> nat \<Rightarrow> BoxDimensions \<Rightarrow> nat \<Rightarrow> RemovalState \<Rightarrow> RemovalState" where
  "runSteps rnd sz boxDims target rs0 =
     step4 sz boxDims target (step3 rnd sz boxDims (step2 rnd sz boxDims (step1 rnd sz boxDims rs0)))"

definition finishPuzzle :: "GridRef \<Rightarrow> state \<Rightarrow> RemovalState \<Rightarrow> (error + GridRef) \<times> state" where
  "finishPuzzle puzzleRef st1 rs = (Inr puzzleRef, st1\<lparr>heap := store rs, rpos := draws rs\<rparr>)"

fun createPuzzleOn ::
  "(nat \<Rightarrow> nat) \<Rightarrow> nat \<Rightarrow> Difficulty \<Rightarrow> GridRef \<times> state \<Rightarrow> (error + GridRef) \<times> state" where
  "createPuzzleOn rnd sz difficulty (puzzleRef, st1) =
     (case getBoxDimensions sz of
        Inl e \<Rightarrow> (Inl e, st1)
      | Inr boxDims \<Rightarrow>
          finishPuzzle puzzleRef st1
            (runSteps rnd sz boxDims (targetCellsToRemove sz difficulty)
               (initRemovalState sz boxDims puzzleRef st1)))"

definition createPuzzle ::
  "(nat \<Rightarrow> nat) \<Rightarrow> GridRef \<Rightarrow> nat \<Rightarrow> Difficulty \<Rightarrow> state \<Rightarrow> (error + GridRef) \<times> state" where
  "createPuzzle rnd grid sz difficulty st =
     (case assertValidSize sz of
        Inl e \<Rightarrow> (Inl e, st)
      | Inr _ \<Rightarrow> createPuzzleOn rnd sz difficulty (copyRows grid st))"

section \<open>Generating a complete grid: generateSudoku\<close>

text \<open>
  \<open>digitsCache\<close> maps a size to the one array \<open>[1, ..., size]\<close> that every call shares.
\<close>

definition getDigits :: "nat \<Rightarrow> state \<Rightarrow> addr \<times> state" where
  "getDigits sz st =
     (case digitsCache st sz of
        None \<Rightarrow> (case alloc (map (\<lambda>i. i + 1) [0..<sz]) st of
                   (a, st') \<Rightarrow> (a, st'\<lparr>digitsCache := (digitsCache st')(sz \<mapsto> a)\<rparr>))
      | Some a \<Rightarrow> (a, st))"

text \<open>
  \<open>shuffleArray\<close>: the copy \<^verbatim>\<open>[...array]\<close> is a fresh array \<open>arr\<close>; the loop
  \<^verbatim>\<open>for (let i = arr.length - 1; i > 0; i--)\<close> swaps \<open>arr[i]\<close> and \<open>arr[j]\<close> in the store.
\<close>

fun shuffleLoop :: "(nat \<Rightarrow> nat) \<Rightarrow> addr \<Rightarrow> nat \<Rightarrow> state \<Rightarrow> state" where
  "shuffleLoop rnd arr 0 st = st"
| "shuffleLoop rnd arr (Suc i') st =
     (let i = Suc i';
          j = randomIndex rnd (rpos st) (i + 1);
          xs = heap st ! arr
      in shuffleLoop rnd arr i'
           (st\<lparr>heap := (heap st)[arr := xs[i := xs ! j, j := xs ! i]], rpos := rpos st + 1\<rparr>))"

definition shuffleArray :: "(nat \<Rightarrow> nat) \<Rightarrow> addr \<Rightarrow> state \<Rightarrow> addr \<times> state" where
  "shuffleArray rnd array st =
     (case alloc (heap st ! array) st of
        (arr, st1) \<Rightarrow> (arr, shuffleLoop rnd arr (length (heap st1 ! arr) - 1) st1))"

text \<open>
  The grid of \<open>generateSudoku\<close> is built by the function itself, one fresh array per row,
  and nothing else refers to it before it is returned: it is passed along as a value.
\<close>

definition setCell :: "Grid \<Rightarrow> nat \<Rightarrow> nat \<Rightarrow> nat \<Rightarrow> Grid" where
  "setCell grid r c v = grid[r := (grid ! r)[c := v]]"

definition fillBox ::
  "(nat \<Rightarrow> nat) \<Rightarrow> Grid \<Rightarrow> nat \<Rightarrow> nat \<Rightarrow> BoxDimensions \<Rightarrow> addr \<Rightarrow> state \<Rightarrow> Grid \<times> state" where
  "fillBox rnd grid r c boxDims digits st =
     (case shuffleArray rnd digits st of
        (numbers, st') \<Rightarrow>
          (fst (fold (\<lambda>(i, j) (g, numIndex). (setCell g (r + i) (c + j) (heap st' ! numbers ! numIndex), numIndex + 1))
                 (List.product [0..<rows boxDims] [0..<cols boxDims]) (grid, 0)),
           st'))"

definition fillDiagonalBoxes ::
  "(nat \<Rightarrow> nat) \<Rightarrow> Grid \<Rightarrow> nat \<Rightarrow> BoxDimensions \<Rightarrow> addr \<Rightarrow> state \<Rightarrow> Grid \<times> state" where
  "fillDiagonalBoxes rnd grid sz boxDims digits st =
     (let boxesPerRow = boxesPerRowOf sz boxDims
      in fold (\<lambda>(boxRow, boxCol) (g, st').
                 if boxRow = boxCol then
                   let startRow = boxRow * rows boxDims;
                       startCol = boxCol * cols boxDims
                   in fillBox rnd g startRow startCol boxDims digits st'
                 else (g, st'))
           (List.product [0..<boxesPerRow] [0..<boxesPerRow]) (grid, st))"

definition isValid :: "Grid \<Rightarrow> nat \<Rightarrow> nat \<Rightarrow> nat \<Rightarrow> nat \<Rightarrow> BoxDimensions \<Rightarrow> bool" where
  "isValid grid r c num sz boxDims =
     (if list_ex (\<lambda>j. grid ! r ! j = num) [0..<sz] then False
      else if list_ex (\<lambda>i. grid ! i ! c = num) [0..<sz] then False
      else
        let boxRow = (r div rows boxDims) * rows boxDims;
            boxCol = (c div cols boxDims) * cols boxDims
        in if list_ex (\<lambda>(i, j). grid ! i ! j = num)
                (List.product [boxRow..<boxRow + rows boxDims] [boxCol..<boxCol + cols boxDims])
           then False
           else True)"

text \<open>The array \<open>candidates\<close> is filled by \<open>push\<close> and stored when it is returned.\<close>

definition getCandidates ::
  "Grid \<Rightarrow> nat \<Rightarrow> nat \<Rightarrow> nat \<Rightarrow> BoxDimensions \<Rightarrow> addr \<Rightarrow> state \<Rightarrow> addr \<times> state" where
  "getCandidates grid r c sz boxDims digits st =
     alloc (filter (\<lambda>num. isValid grid r c num sz boxDims) (heap st ! digits)) st"

text \<open>A \<open>CandidateCell\<close> is \<open>{row, col, candidates}\<close>.\<close>

type_synonym CandidateCell = "nat \<times> nat \<times> addr"

definition MAX_SAFE_INTEGER :: nat where
  "MAX_SAFE_INTEGER = 9007199254740991"

text \<open>
  The two nested loops of \<open>findBestCell\<close> visit the cells in row-major order;
  \<open>scanCells\<close> runs their body over the cells still to visit.
\<close>

fun scanCells ::
  "(nat \<Rightarrow> nat) \<Rightarrow> Grid \<Rightarrow> nat \<Rightarrow> BoxDimensions \<Rightarrow> addr \<Rightarrow> (nat \<times> nat) list \<Rightarrow>
   CandidateCell option \<Rightarrow> nat \<Rightarrow> state \<Rightarrow> CandidateCell option \<times> state" where
  "scanCells rnd grid sz boxDims digits [] bestCell bestCount st = (bestCell, st)"
| "scanCells rnd grid sz boxDims digits ((r, c) # cells) bestCell bestCount st =
     (if grid ! r ! c \<noteq> 0 then scanCells rnd grid sz boxDims digits cells bestCell bestCount st
      else
        (case getCandidates grid r c sz boxDims digits st of
           (candidates, st1) \<Rightarrow>
             if length (heap st1 ! candidates) = 0 then (Some (r, c, candidates), st1)
             else if length (heap st1 ! candidates) < bestCount then
               (case shuffleArray rnd candidates st1 of
                  (shuffled, st2) \<Rightarrow>
                    if length (heap st1 ! candidates) = 1 then (Some (r, c, shuffled), st2)
                    else scanCells rnd grid sz boxDims digits cells (Some (r, c, shuffled))
                           (length (heap st1 ! candidates)) st2)
             else scanCells rnd grid sz boxDims digits cells bestCell bestCount st1))"

definition findBestCell ::
  "(nat \<Rightarrow> nat) \<Rightarrow> Grid \<Rightarrow> nat \<Rightarrow> BoxDimensions \<Rightarrow> addr \<Rightarrow> state \<Rightarrow> CandidateCell option \<times> state" where
  "findBestCell rnd grid sz boxDims digits st =
     scanCells rnd grid sz boxDims digits (List.product [0..<sz] [0..<sz]) None MAX_SAFE_INTEGER st"

text \<open>
  \<open>solveSudoku\<close> recurses once per cell it fills. The recursion depth is the fuel: a
  call that runs out of fuel has no result (\<open>None\<close>). \<open>tryCandidates\<close> is the loop
  \<^verbatim>\<open>for (const num of candidates)\<close> around the recursive call.
\<close>

fun tryCandidates ::
  "(Grid \<Rightarrow> state \<Rightarrow> (bool \<times> Grid \<times> state) option) \<Rightarrow> nat \<Rightarrow> nat \<Rightarrow> nat list \<Rightarrow>
   Grid \<Rightarrow> state \<Rightarrow> (bool \<times> Grid \<times> state) option" where
  "tryCandidates solve r c [] grid st = Some (False, grid, st)"
| "tryCandidates solve r c (num # nums) grid st =
     (case solve (setCell grid r c num) st of
        None \<Rightarrow> None
      | Some (ok, grid', st') \<Rightarrow>
          if ok then Some (True, grid', st')
          else tryCandidates solve r c nums (setCell grid' r c 0) st')"

primrec solveSudoku ::
  "nat \<Rightarrow> (nat \<Rightarrow> nat) \<Rightarrow> nat \<Rightarrow> BoxDimensions \<Rightarrow> addr \<Rightarrow> Grid \<Rightarrow> state \<Rightarrow> (bool \<times> Grid \<times> state) option" where
  "solveSudoku 0 rnd sz boxDims digits grid st = None"
| "solveSudoku (Suc fuel) rnd sz boxDims digits grid st =
     (case findBestCell rnd grid sz boxDims digits st of
        (None, st') \<Rightarrow> Some (True, grid, st')
      | (Some (r, c, candidates), st') \<Rightarrow>
          tryCandidates (solveSudoku fuel rnd sz boxDims digits) r c (heap st' ! candidates) grid st')"

definition maxAttempts :: nat where
  "maxAttempts = 5"

text \<open>One pass of the retry loop: zero the grid, seed the diagonal boxes, search.\<close>

definition attemptOnce ::
  "nat \<Rightarrow> (nat \<Rightarrow> nat) \<Rightarrow> nat \<Rightarrow> BoxDimensions \<Rightarrow> addr \<Rightarrow> Grid \<Rightarrow> state \<Rightarrow> (bool \<times> Grid \<times> state) option" where
  "attemptOnce fuel rnd sz boxDims digits grid st =
     (let zeroed = map (\<lambda>row. replicate (length row) 0) grid
      in case fillDiagonalBoxes rnd zeroed sz boxDims digits st of
           (seeded, st1) \<Rightarrow> solveSudoku fuel rnd sz boxDims digits seeded st1)"

function generateLoop ::
  "nat \<Rightarrow> (nat \<Rightarrow> nat) \<Rightarrow> nat \<Rightarrow> BoxDimensions \<Rightarrow> addr \<Rightarrow> nat \<Rightarrow> Grid \<Rightarrow> state \<Rightarrow>
   ((error + Grid) \<times> state) option" where
  "generateLoop fuel rnd sz boxDims digits attempt grid st =
     (if attempt < maxAttempts then
        (case attemptOnce fuel rnd sz boxDims digits grid st of
           None \<Rightarrow> None
         | Some (ok, grid', st') \<Rightarrow>
             if ok then Some (Inr grid', st')
             else generateLoop fuel rnd sz boxDims digits (attempt + 1) grid' st')
      else Some (Inl GenerationFailureError, st))"
  by pat_completeness auto
termination
  by (relation "measure (\<lambda>(fuel, rnd, sz, boxDims, digits, attempt, grid, st). maxAttempts - attempt)") auto

declare generateLoop.simps [simp del]

definition generateSudoku ::
  "nat \<Rightarrow> (nat \<Rightarrow> nat) \<Rightarrow> nat \<Rightarrow> state \<Rightarrow> ((error + Grid) \<times> state) option" where
  "generateSudoku fuel rnd sz st =
     (case assertValidSize sz of
        Inl e \<Rightarrow> Some (Inl e, st)
      | Inr _ \<Rightarrow>
          let grid = replicate sz (replicate sz 0)
          in (case getBoxDimensions sz of
                Inl e \<Rightarrow> Some (Inl e, st)
              | Inr boxDims \<Rightarrow>
                  (case getDigits sz st of
                     (digits, st1) \<Rightarrow> generateLoop fuel rnd sz boxDims digits 0 grid st1)))"

section \<open>Predicates of the claims and of their proofs\<close>

text \<open>
  A run of the removal: the states reached from \<open>rs\<close> by drawing random numbers and by
  calls of \<open>removeCell\<close> on cells of the grid. Every step of \<open>createPuzzle\<close> is such a
  run; \<open>removeCell\<close> is the only function that writes to the store.
\<close>

inductive removalRun :: "nat \<Rightarrow> BoxDimensions \<Rightarrow> RemovalState \<Rightarrow> RemovalState \<Rightarrow> bool"
  for sz boxDims rs where
  run_start: "removalRun sz boxDims rs rs"
| run_draw: "removalRun sz boxDims rs rs' \<Longrightarrow> removalRun sz boxDims rs (rs'\<lparr>draws := d\<rparr>)"
| run_remove: "removalRun sz boxDims rs rs' \<Longrightarrow> r < sz \<Longrightarrow> c < sz
    \<Longrightarrow> removalRun sz boxDims rs (removeCell sz boxDims r c rs')"

text \<open>The cell of a position, the positions pending in the column map, the cells of the grid.\<close>

definition cellOf :: "Position \<Rightarrow> nat \<times> nat" where
  "cellOf p = (fst p, fst (snd p))"

definition pend :: "(nat \<times> Position list) list \<Rightarrow> Position multiset" where
  "pend m = mset (concat (map snd m))"

definition allCells :: "nat \<Rightarrow> (nat \<times> nat) set" where
  "allCells sz = {0..<sz} \<times> {0..<sz}"

text \<open>
  The invariant of the two loops of step 4: the pending positions are exactly the cells not
  yet removed, each once, and \<open>removedCount\<close> counts the cells removed since the step began.
\<close>

definition roundInv :: "nat \<Rightarrow> BoxDimensions \<Rightarrow> RemovalState \<Rightarrow> nat \<Rightarrow> RoundState \<Rightarrow> bool" where
  "roundInv sz boxDims rs0 c s \<longleftrightarrow>
     removalRun sz boxDims rs0 (rstate s) \<and>
     removedCells (rstate s) \<subseteq> allCells sz \<and>
     image_mset cellOf (pend (positionsByColumn s)) = mset_set (allCells sz - removedCells (rstate s)) \<and>
     card (removedCells (rstate s)) = card (removedCells rs0) + removedCount s \<and>
     removedCount s \<le> c"

text \<open>
  The puzzle rows are distinct arrays of the store, of the right size; \<open>storeRel\<close> relates
  the store of a run to the store it started from.
\<close>

definition puzzleOK :: "nat \<Rightarrow> RemovalState \<Rightarrow> bool" where
  "puzzleOK sz rs \<longleftrightarrow>
     distinct (puzzle rs) \<and> length (puzzle rs) = sz \<and>
     (\<forall>a \<in> set (puzzle rs). a < length (store rs) \<and> length (store rs ! a) = sz)"

definition storeRel :: "nat \<Rightarrow> RemovalState \<Rightarrow> RemovalState \<Rightarrow> bool" where
  "storeRel sz rs0 rs \<longleftrightarrow>
     puzzle rs = puzzle rs0 \<and> length (store rs) = length (store rs0) \<and>
     (\<forall>a. a \<notin> set (puzzle rs0) \<longrightarrow> store rs ! a = store rs0 ! a) \<and>
     (\<forall>a \<in> set (puzzle rs0). length (store rs ! a) = sz) \<and>
     (\<forall>r < sz. \<forall>c < sz. store rs ! (puzzle rs0 ! r) ! c
        = (if (r, c) \<in> removedCells rs then 0 else store rs0 ! (puzzle rs0 ! r) ! c))"

text \<open>
  A grid handed to \<open>createPuzzle\<close> is well formed when it has \<open>sz\<close> rows, each an array of
  the store of length \<open>sz\<close>. \<open>zeroCells\<close> counts the empty cells of a grid.
  \<open>freshCopy\<close> is the state in which the removal starts, \<open>coverage\<close> the state after
  the three coverage steps.
\<close>

definition wellFormed :: "nat \<Rightarrow> GridRef \<Rightarrow> state \<Rightarrow> bool" where
  "wellFormed sz grid st \<longleftrightarrow>
     length grid = sz \<and> (\<forall>a \<in> set grid. a < length (heap st) \<and> length (heap st ! a) = sz)"

definition zeroCells :: "Grid \<Rightarrow> nat" where
  "zeroCells g = length (filter (\<lambda>v. v = 0) (concat g))"

definition coverage :: "(nat \<Rightarrow> nat) \<Rightarrow> nat \<Rightarrow> BoxDimensions \<Rightarrow> RemovalState \<Rightarrow> RemovalState" where
  "coverage rnd sz boxDims rs0 = step3 rnd sz boxDims (step2 rnd sz boxDims (step1 rnd sz boxDims rs0))"

definition freshCopy :: "nat \<Rightarrow> BoxDimensions \<Rightarrow> GridRef \<Rightarrow> state \<Rightarrow> RemovalState" where
  "freshCopy sz boxDims grid st =
     initRemovalState sz boxDims (fst (copyRows grid st)) (snd (copyRows grid st))"

definition trackInv :: "nat \<Rightarrow> BoxDimensions \<Rightarrow> RemovalState \<Rightarrow> bool" where
  "trackInv sz boxDims rs \<longleftrightarrow>
     rowsWithRemovals rs = fst ` removedCells rs \<and>
     colsWithRemovals rs = snd ` removedCells rs \<and>
     boxesWithRemovals rs = (\<lambda>(r, c). getBoxIndex r c boxDims sz) ` removedCells rs"

text \<open>
  A removal state in which nothing has been removed yet and every counter is zero, as
  \<open>createPuzzle\<close> sets it up.
\<close>

definition untouched :: "nat \<Rightarrow> RemovalState \<Rightarrow> bool" where
  "untouched sz rs \<longleftrightarrow>
     removedCells rs = {} \<and>
     rowRemovalCounts rs = replicate sz 0 \<and> colRemovalCounts rs = replicate sz 0 \<and>
     (\<forall>k. getOr0 (boxRemovalCounts rs) k = 0) \<and> (\<forall>k. getOr0 (spatialRegionCounts rs) k = 0)"

definition boxCellsOf :: "nat \<Rightarrow> BoxDimensions \<Rightarrow> nat \<Rightarrow> (nat \<times> nat) list" where
  "boxCellsOf sz boxDims boxIdx =
     map (\<lambda>(i, j). ((boxIdx div boxesPerRowOf sz boxDims) * rows boxDims + i,
                     (boxIdx mod boxesPerRowOf sz boxDims) * cols boxDims + j))
       (List.product [0..<rows boxDims] [0..<cols boxDims])"

definition fixedDraws :: "nat list \<Rightarrow> nat \<Rightarrow> nat" where
  "fixedDraws xs p = (if p < length xs then xs ! p else 0)"

definition solution4 :: "nat list list" where
  "solution4 = [[1, 2, 3, 4], [3, 4, 1, 2], [2, 1, 4, 3], [4, 3, 2, 1]]"

definition state4 :: state where
  "state4 = \<lparr>heap = solution4, digitsCache = Map.empty, rpos = 0\<rparr>"

definition solution6 :: "nat list list" where
  "solution6 = [[1, 2, 3, 4, 5, 6], [4, 5, 6, 1, 2, 3], [2, 3, 1, 5, 6, 4],
                [5, 6, 4, 2, 3, 1], [3, 1, 2, 6, 4, 5], [6, 4, 5, 3, 1, 2]]"

definition state6 :: state where
  "state6 = \<lparr>heap = solution6, digitsCache = Map.empty, rpos = 0\<rparr>"

text \<open>
  \<open>frame st st'\<close>: the store of \<open>st'\<close> extends the store of \<open>st\<close>, every array of
  \<open>st\<close> is unchanged, and so is the digit cache. \<open>digitsOf n\<close> is the list that
  \<open>getDigits\<close> builds for the size \<open>n\<close>; \<open>cacheOK\<close>: every entry of the cache is such a
  list.
\<close>

definition frame :: "state \<Rightarrow> state \<Rightarrow> bool" where
  "frame st st' \<longleftrightarrow>
     length (heap st) \<le> length (heap st') \<and>
     (\<forall>a < length (heap st). heap st' ! a = heap st ! a) \<and>
     digitsCache st' = digitsCache st"

definition digitsOf :: "nat \<Rightarrow> nat list" where
  "digitsOf n = map (\<lambda>i. i + 1) [0..<n]"

definition cacheOK :: "state \<Rightarrow> bool" where
  "cacheOK st \<longleftrightarrow>
     (\<forall>n a. digitsCache st n = Some a \<longrightarrow> a < length (heap st) \<and> heap st ! a = digitsOf n)"

text \<open>
  The legal candidates of a cell are the digits that \<open>isValid\<close> accepts there; the empty
  cells are taken in the order of the scan. \<open>bestSoFar\<close> is the invariant of the scan of
  \<open>findBestCell\<close>, \<open>chosen\<close> what it returns: the first empty cell with at most one
  candidate if there is one, the first with the least number of candidates otherwise.
\<close>

definition legalCandidates :: "Grid \<Rightarrow> nat \<Rightarrow> BoxDimensions \<Rightarrow> nat list \<Rightarrow> nat \<times> nat \<Rightarrow> nat list" where
  "legalCandidates g sz boxDims ds cell = filter (\<lambda>num. isValid g (fst cell) (snd cell) num sz boxDims) ds"

definition emptyCells :: "Grid \<Rightarrow> (nat \<times> nat) list \<Rightarrow> (nat \<times> nat) list" where
  "emptyCells g cells = filter (\<lambda>cell. g ! fst cell ! snd cell = 0) cells"

definition bestSoFar ::
  "Grid \<Rightarrow> nat \<Rightarrow> BoxDimensions \<Rightarrow> nat list \<Rightarrow> (nat \<times> nat) list \<Rightarrow> CandidateCell option \<Rightarrow> nat \<Rightarrow> state \<Rightarrow> bool" where
  "bestSoFar g sz boxDims ds seen bestCell bestCount st \<longleftrightarrow>
     2 \<le> bestCount \<and> (\<forall>x \<in> set seen. 2 \<le> length (legalCandidates g sz boxDims ds x)) \<and>
     (case bestCell of
        None \<Rightarrow> seen = [] \<and> length ds < bestCount
      | Some (r, c, cand) \<Rightarrow>
          length (legalCandidates g sz boxDims ds (r, c)) = bestCount \<and>
          cand < length (heap st) \<and>
          mset (heap st ! cand) = mset (legalCandidates g sz boxDims ds (r, c)) \<and>
          (\<exists>pre mid. seen = pre @ (r, c) # mid \<and>
             (\<forall>x \<in> set pre. bestCount < length (legalCandidates g sz boxDims ds x)) \<and>
             (\<forall>x \<in> set mid. bestCount \<le> length (legalCandidates g sz boxDims ds x))))"

definition chosen ::
  "Grid \<Rightarrow> nat \<Rightarrow> BoxDimensions \<Rightarrow> nat list \<Rightarrow> (nat \<times> nat) list \<Rightarrow> CandidateCell option \<Rightarrow> state \<Rightarrow> bool" where
  "chosen g sz boxDims ds empties result st \<longleftrightarrow>
     (case result of
        None \<Rightarrow> empties = []
      | Some (r, c, cand) \<Rightarrow>
          cand < length (heap st) \<and>
          mset (heap st ! cand) = mset (legalCandidates g sz boxDims ds (r, c)) \<and>
          (\<exists>pre post. empties = pre @ (r, c) # post \<and>
             (if length (legalCandidates g sz boxDims ds (r, c)) \<le> 1
              then \<forall>x \<in> set pre. 2 \<le> length (legalCandidates g sz boxDims ds x)
              else (\<forall>x \<in> set pre. length (legalCandidates g sz boxDims ds (r, c))
                                     < length (legalCandidates g sz boxDims ds x)) \<and>
                   (\<forall>x \<in> set post. length (legalCandidates g sz boxDims ds (r, c))
                                     \<le> length (legalCandidates g sz boxDims ds x)))))"



text \<open>
  A grid of the right shape; two cells are peers when they share a row, a column or a box;
  \<open>noDup\<close>: no digit other than 0 occurs in two peers; \<open>gridInv\<close> is the invariant of
  the search; \<open>solved\<close> is what a call of \<open>solveSudoku\<close> that returns has done.
\<close>

definition wfGrid :: "nat \<Rightarrow> Grid \<Rightarrow> bool" where
  "wfGrid sz g \<longleftrightarrow> length g = sz \<and> (\<forall>r < sz. length (g ! r) = sz)"

definition peers :: "BoxDimensions \<Rightarrow> nat \<times> nat \<Rightarrow> nat \<times> nat \<Rightarrow> bool" where
  "peers boxDims x y \<longleftrightarrow>
     fst x = fst y \<or> snd x = snd y \<or>
     (fst x div rows boxDims = fst y div rows boxDims \<and> snd x div cols boxDims = snd y div cols boxDims)"

definition noDup :: "nat \<Rightarrow> BoxDimensions \<Rightarrow> Grid \<Rightarrow> bool" where
  "noDup sz boxDims g \<longleftrightarrow>
     (\<forall>x \<in> allCells sz. \<forall>y \<in> allCells sz.
        x \<noteq> y \<and> peers boxDims x y \<and> g ! fst x ! snd x \<noteq> 0
          \<longrightarrow> g ! fst x ! snd x \<noteq> g ! fst y ! snd y)"

definition gridInv :: "nat \<Rightarrow> BoxDimensions \<Rightarrow> Grid \<Rightarrow> bool" where
  "gridInv sz boxDims g \<longleftrightarrow>
     wfGrid sz g \<and> noDup sz boxDims g \<and> (\<forall>x \<in> allCells sz. g ! fst x ! snd x \<le> sz)"

definition digitsAt :: "nat \<Rightarrow> addr \<Rightarrow> state \<Rightarrow> bool" where
  "digitsAt sz digits st \<longleftrightarrow> digits < length (heap st) \<and> heap st ! digits = digitsOf sz"

definition solved :: "nat \<Rightarrow> BoxDimensions \<Rightarrow> Grid \<Rightarrow> state \<Rightarrow> (bool \<times> Grid \<times> state) \<Rightarrow> bool" where
  "solved sz boxDims g st res \<longleftrightarrow>
     (case res of (ok, g', st') \<Rightarrow>
        frame st st' \<and> gridInv sz boxDims g' \<and>
        (ok \<longrightarrow> emptyCells g' (List.product [0..<sz] [0..<sz]) = []) \<and>
        (\<not> ok \<longrightarrow> g' = g))"

text \<open>
  A valid solution: every row, every column and every box holds each digit from 1 to
  \<open>sz\<close> exactly once, and no cell is 0. The boxes are \<open>rows boxDims\<close> high and
  \<open>cols boxDims\<close> wide and tile the grid.
\<close>

definition colOf :: "nat \<Rightarrow> Grid \<Rightarrow> nat \<Rightarrow> nat list" where
  "colOf sz g c = map (\<lambda>i. g ! i ! c) [0..<sz]"

definition boxOf :: "BoxDimensions \<Rightarrow> Grid \<Rightarrow> nat \<Rightarrow> nat \<Rightarrow> nat list" where
  "boxOf boxDims g R C =
     map (\<lambda>(i, j). g ! (R * rows boxDims + i) ! (C * cols boxDims + j))
       (List.product [0..<rows boxDims] [0..<cols boxDims])"

definition eachOnce :: "nat \<Rightarrow> nat list \<Rightarrow> bool" where
  "eachOnce sz xs \<longleftrightarrow> (\<forall>d \<in> {1..sz}. count_list xs d = 1)"

definition validSolution :: "nat \<Rightarrow> BoxDimensions \<Rightarrow> Grid \<Rightarrow> bool" where
  "validSolution sz boxDims g \<longleftrightarrow>
     wfGrid sz g \<and>
     (\<forall>r < sz. eachOnce sz (g ! r)) \<and>
     (\<forall>c < sz. eachOnce sz (colOf sz g c)) \<and>
     (\<forall>R < sz div rows boxDims. \<forall>C < sz div cols boxDims. eachOnce sz (boxOf boxDims g R C)) \<and>
     (\<forall>r < sz. 0 \<notin> set (g ! r))"

text \<open>
  The body of the loops of \<open>fillBox\<close>, the cells of the box at \<open>(r, c)\<close>, one pass of
  the loop of \<open>fillDiagonalBoxes\<close> on the diagonal, and its invariant.
\<close>

definition fillStep :: "nat list \<Rightarrow> nat \<Rightarrow> nat \<Rightarrow> nat \<times> nat \<Rightarrow> Grid \<times> nat \<Rightarrow> Grid \<times> nat" where
  "fillStep ys r c = (\<lambda>(i, j) (g, numIndex). (setCell g (r + i) (c + j) (ys ! numIndex), numIndex + 1))"

definition inBox :: "nat \<Rightarrow> nat \<Rightarrow> BoxDimensions \<Rightarrow> nat \<times> nat \<Rightarrow> bool" where
  "inBox r c boxDims x \<longleftrightarrow>
     r \<le> fst x \<and> fst x < r + rows boxDims \<and> c \<le> snd x \<and> snd x < c + cols boxDims"

definition seedBox :: "(nat \<Rightarrow> nat) \<Rightarrow> BoxDimensions \<Rightarrow> addr \<Rightarrow> nat \<Rightarrow> Grid \<times> state \<Rightarrow> Grid \<times> state" where
  "seedBox rnd boxDims digits k = (\<lambda>(g, st). fillBox rnd g (k * rows boxDims) (k * cols boxDims) boxDims digits st)"

definition seeded :: "nat \<Rightarrow> BoxDimensions \<Rightarrow> nat \<Rightarrow> state \<Rightarrow> Grid \<times> state \<Rightarrow> bool" where
  "seeded sz boxDims k st0 res \<longleftrightarrow>
     (case res of (g, st) \<Rightarrow>
        frame st0 st \<and> gridInv sz boxDims g \<and>
        (\<forall>x \<in> allCells sz. g ! fst x ! snd x \<noteq> 0
            \<longrightarrow> fst x < k * rows boxDims \<and> snd x < k * cols boxDims))"






text \<open>The state when the module is loaded: no array, an empty digit cache.\<close>

definition state0 :: state where
  "state0 = \<lparr>heap = [], digitsCache = Map.empty, rpos = 0\<rparr>"

text \<open>
  What a caller can do to the state: call the two exported functions, \<open>generateSudoku\<close>
  and \<open>createPuzzle\<close> (on a grid whose rows are arrays of the store), and store arrays of
  its own, such as the rows of a grid it has been given. \<open>calls st0 st\<close>: the state \<open>st\<close>
  is reached from \<open>st0\<close> by any number of these.
\<close>

inductive calls :: "state \<Rightarrow> state \<Rightarrow> bool" for st0 where
  calls_none: "calls st0 st0"
| calls_generate: "calls st0 st \<Longrightarrow> generateSudoku fuel rnd sz st = Some (res, st') \<Longrightarrow> calls st0 st'"
| calls_puzzle: "calls st0 st \<Longrightarrow> wellFormed sz grid st
    \<Longrightarrow> createPuzzle rnd grid sz difficulty st = (res, st') \<Longrightarrow> calls st0 st'"
| calls_store: "calls st0 st \<Longrightarrow> alloc xs st = (a, st') \<Longrightarrow> calls st0 st'"

section \<open>The removal run and its invariants\<close>

lemma isValidSize_iff: "isValidSize sz \<longleftrightarrow> sz = 4 \<or> sz = 6 \<or> sz = 9"
  by (auto simp: isValidSize_def VALID_SIZES_def)

lemma assertValidSize_Inr: "assertValidSize sz = Inr u \<longleftrightarrow> sz = 4 \<or> sz = 6 \<or> sz = 9"
  by (simp add: assertValidSize_def isValidSize_iff)

lemma assertValidSize_Inl:
  "assertValidSize sz = Inl e \<longleftrightarrow> e = UnsupportedSizeError \<and> sz \<noteq> 4 \<and> sz \<noteq> 6 \<and> sz \<noteq> 9"
  by (auto simp: assertValidSize_def isValidSize_iff)

lemma removalRun_trans:
  assumes "removalRun sz boxDims b c" and "removalRun sz boxDims a b"
  shows "removalRun sz boxDims a c"
  using assms by (induction rule: removalRun.induct) (auto intro: removalRun.intros)

lemma removalRun_fold:
  assumes "\<And>x rs. x \<in> set xs \<Longrightarrow> removalRun sz boxDims rs (f x rs)"
  shows "removalRun sz boxDims rs (fold f xs rs)"
  using assms
proof (induction xs arbitrary: rs)
  case Nil
  show ?case by (simp add: run_start)
next
  case (Cons x xs)
  have "removalRun sz boxDims rs (f x rs)" using Cons.prems by simp
  moreover have "removalRun sz boxDims (f x rs) (fold f xs (f x rs))"
    using Cons.IH Cons.prems by simp
  ultimately show ?case by (simp add: removalRun_trans[rotated])
qed

lemma pickTop_result:
  assumes "available \<noteq> []" and "pickTop rnd available rs = (x, rs')"
  shows "x \<in> fst ` set available \<and> rs' = rs\<lparr>draws := draws rs + 1\<rparr>"
proof -
  let ?sorted = "sort_key snd available"
  let ?top = "take (min 3 (length ?sorted)) ?sorted"
  have len: "length ?top > 0" using assms(1) by (cases available) auto
  then have "randomIndex rnd (draws rs) (length ?top) < length ?top"
    unfolding randomIndex_def by (rule mod_less_divisor)
  then have "?top ! randomIndex rnd (draws rs) (length ?top) \<in> set ?top"
    by (rule nth_mem)
  then have "?top ! randomIndex rnd (draws rs) (length ?top) \<in> set available"
    by (auto dest: in_set_takeD)
  with assms(2) show ?thesis
    by (auto simp: pickTop_def Let_def)
qed

lemma step1_row_run:
  assumes "row < sz"
  shows "removalRun sz boxDims rs (step1_row rnd sz boxDims row rs)"
proof -
  let ?av = "map (\<lambda>col. (col, getCellPriority sz boxDims rs row col))
                (filter (\<lambda>col. (row, col) \<notin> removedCells rs) [0..<sz])"
  show ?thesis
  proof (cases "row \<notin> rowsWithRemovals rs \<and> ?av \<noteq> []")
    case False
    then show ?thesis by (auto simp: step1_row_def Let_def run_start)
  next
    case True
    obtain x rs' where p: "pickTop rnd ?av rs = (x, rs')" by (cases "pickTop rnd ?av rs")
    from pickTop_result[OF _ p] True
    have x: "x \<in> fst ` set ?av" and rs': "rs' = rs\<lparr>draws := draws rs + 1\<rparr>" by auto
    from x have "x < sz" by auto
    moreover have "removalRun sz boxDims rs rs'" unfolding rs' by (intro run_draw run_start)
    ultimately have "removalRun sz boxDims rs (removeCell sz boxDims row x rs')"
      using assms by (intro run_remove)
    with True p show ?thesis by (simp add: step1_row_def Let_def)
  qed
qed

lemma step2_col_run:
  assumes "col < sz"
  shows "removalRun sz boxDims rs (step2_col rnd sz boxDims col rs)"
proof -
  let ?av = "map (\<lambda>row. (row, getCellPriority sz boxDims rs row col))
                (filter (\<lambda>row. (row, col) \<notin> removedCells rs) [0..<sz])"
  show ?thesis
  proof (cases "col \<notin> colsWithRemovals rs \<and> ?av \<noteq> []")
    case False
    then show ?thesis by (auto simp: step2_col_def Let_def run_start)
  next
    case True
    obtain x rs' where p: "pickTop rnd ?av rs = (x, rs')" by (cases "pickTop rnd ?av rs")
    from pickTop_result[OF _ p] True
    have x: "x \<in> fst ` set ?av" and rs': "rs' = rs\<lparr>draws := draws rs + 1\<rparr>" by auto
    from x have "x < sz" by auto
    moreover have "removalRun sz boxDims rs rs'" unfolding rs' by (intro run_draw run_start)
    ultimately have "removalRun sz boxDims rs (removeCell sz boxDims x col rs')"
      using assms by (intro run_remove)
    with True p show ?thesis by (simp add: step2_col_def Let_def)
  qed
qed

lemma step1_run: "removalRun sz boxDims rs (step1 rnd sz boxDims rs)"
  unfolding step1_def by (rule removalRun_fold) (simp add: step1_row_run)

lemma step2_run: "removalRun sz boxDims rs (step2 rnd sz boxDims rs)"
  unfolding step2_def by (rule removalRun_fold) (simp add: step2_col_run)

lemma boxDims_cases:
  assumes "getBoxDimensions sz = Inr boxDims"
  obtains "sz = 9" "boxDims = \<lparr>rows = 3, cols = 3\<rparr>"
        | "sz = 6" "boxDims = \<lparr>rows = 2, cols = 3\<rparr>"
        | "sz = 4" "boxDims = \<lparr>rows = 2, cols = 2\<rparr>"
  using assms by (auto simp: getBoxDimensions_def split: if_splits)

lemma box_cell_in_range:
  assumes "getBoxDimensions sz = Inr boxDims"
    and "boxIdx < boxesPerRowOf sz boxDims * boxesPerRowOf sz boxDims"
    and "i < rows boxDims" and "j < cols boxDims"
  shows "(boxIdx div boxesPerRowOf sz boxDims) * rows boxDims + i < sz \<and>
         (boxIdx mod boxesPerRowOf sz boxDims) * cols boxDims + j < sz"
  using assms(1)
proof (cases rule: boxDims_cases)
  case 1
  with assms(2-4) have "boxIdx div 3 < 3" "boxIdx mod 3 < 3" "i < 3" "j < 3"
    by (auto simp: boxesPerRowOf_def)
  with 1 show ?thesis by (simp add: boxesPerRowOf_def)
next
  case 2
  with assms(2-4) have "boxIdx div 2 < 2" "boxIdx mod 2 < 2" "i < 2" "j < 3"
    by (auto simp: boxesPerRowOf_def)
  with 2 show ?thesis by (simp add: boxesPerRowOf_def)
next
  case 3
  with assms(2-4) have "boxIdx div 2 < 2" "boxIdx mod 2 < 2" "i < 2" "j < 2"
    by (auto simp: boxesPerRowOf_def)
  with 3 show ?thesis by (simp add: boxesPerRowOf_def)
qed

lemma step3_box_run:
  assumes bd: "getBoxDimensions sz = Inr boxDims"
    and idx: "boxIdx < boxesPerRowOf sz boxDims * boxesPerRowOf sz boxDims"
  shows "removalRun sz boxDims rs (step3_box rnd sz boxDims boxIdx rs)"
proof -
  let ?bpr = "boxesPerRowOf sz boxDims"
  let ?cells = "map (\<lambda>(i, j). ((boxIdx div ?bpr) * rows boxDims + i, (boxIdx mod ?bpr) * cols boxDims + j))
                    (List.product [0..<rows boxDims] [0..<cols boxDims])"
  let ?av = "map (\<lambda>(row, col). ((row, col), getCellPriority sz boxDims rs row col))
                (filter (\<lambda>(row, col). (row, col) \<notin> removedCells rs) ?cells)"
  have range: "\<And>r c. (r, c) \<in> set ?cells \<Longrightarrow> r < sz \<and> c < sz"
    using box_cell_in_range[OF bd idx] by auto
  show ?thesis
  proof (cases "boxIdx \<notin> boxesWithRemovals rs \<and> ?av \<noteq> []")
    case False
    then show ?thesis by (auto simp: step3_box_def Let_def run_start)
  next
    case True
    obtain x rs' where p: "pickTop rnd ?av rs = (x, rs')" by (cases "pickTop rnd ?av rs")
    from pickTop_result[OF _ p] True
    have x: "x \<in> fst ` set ?av" and rs': "rs' = rs\<lparr>draws := draws rs + 1\<rparr>" by auto
    obtain r c where rc: "x = (r, c)" by (cases x)
    from x rc have "(r, c) \<in> set ?cells" by (auto simp: image_iff)
    from range[OF this] have "r < sz" "c < sz" by auto
    moreover have "removalRun sz boxDims rs rs'" unfolding rs' by (intro run_draw run_start)
    ultimately have "removalRun sz boxDims rs (removeCell sz boxDims r c rs')"
      by (intro run_remove)
    with True p rc show ?thesis by (simp add: step3_box_def Let_def)
  qed
qed

lemma step3_run:
  assumes "getBoxDimensions sz = Inr boxDims"
  shows "removalRun sz boxDims rs (step3 rnd sz boxDims rs)"
  unfolding step3_def Let_def
  by (rule removalRun_fold) (simp add: step3_box_run[OF assms])

lemma finite_allCells [simp]: "finite (allCells sz)"
  by (simp add: allCells_def)

lemma card_allCells [simp]: "card (allCells sz) = sz * sz"
  by (simp add: allCells_def)

lemma set_product_allCells: "set (List.product [0..<sz] [0..<sz]) = allCells sz"
  by (auto simp: allCells_def)

lemma pend_update_None:
  "map_of m k = None \<Longrightarrow> pend (AList.update k v m) = pend m + mset v"
  by (induction m) (auto simp: pend_def)

lemma pend_update_Some:
  "map_of m k = Some old \<Longrightarrow> pend (AList.update k v m) + mset old = pend m + mset v"
  by (induction m) (auto simp: pend_def)

lemma removeCell_removedCells [simp]:
  "removedCells (removeCell sz boxDims r c rs) = insert (r, c) (removedCells rs)"
  by (auto simp: removeCell_def Let_def)

lemma removeCell_draws [simp]: "draws (removeCell sz boxDims r c rs) = draws rs"
  by (simp add: removeCell_def Let_def)

lemma removeCell_puzzle [simp]: "puzzle (removeCell sz boxDims r c rs) = puzzle rs"
  by (simp add: removeCell_def Let_def)

lemma removalRun_removedCells:
  assumes "removalRun sz boxDims rs rs'" and "removedCells rs \<subseteq> allCells sz"
  shows "removedCells rs \<subseteq> removedCells rs' \<and> removedCells rs' \<subseteq> allCells sz"
  using assms by (induction rule: removalRun.induct) (auto simp: allCells_def)

lemma pend_addPosition:
  "image_mset cellOf (pend (addPosition sz boxDims rs x m0))
     = image_mset cellOf (pend m0) + mset (filter (\<lambda>c. c \<notin> removedCells rs) [x])"
proof -
  obtain i j where x: "x = (i, j)" by (cases x)
  show ?thesis
  proof (cases "(i, j) \<in> removedCells rs")
    case True
    with x show ?thesis by (simp add: addPosition_def)
  next
    case False
    define m' where "m' = (if map_of m0 j = None then AList.update j [] m0 else m0)"
    have pm': "pend m' = pend m0"
      by (simp add: m'_def pend_update_None)
    obtain old where old: "map_of m' j = Some old"
      by (cases "map_of m0 j") (auto simp: m'_def update_conv')
    define p where "p = (i, j, getCellPriority sz boxDims rs i j, getSpatialRegion i j sz)"
    have "pend (AList.update j (old @ [p]) m') + mset old = pend m' + mset (old @ [p])"
      by (rule pend_update_Some[OF old])
    then have "pend (AList.update j (old @ [p]) m') = pend m0 + {#p#}"
      by (simp add: pm')
    then have *: "image_mset cellOf (pend (AList.update j (old @ [p]) m'))
        = image_mset cellOf (pend m0) + {#(i, j)#}"
      by (simp add: p_def cellOf_def)
    have "addPosition sz boxDims rs x m0 = AList.update j (old @ [p]) m'"
      using False x old by (simp add: addPosition_def Let_def m'_def[symmetric] p_def)
    with * False x show ?thesis by simp
  qed
qed

lemma build_fold:
  "image_mset cellOf (pend (fold (addPosition sz boxDims rs) cs m0))
   = image_mset cellOf (pend m0) + mset (filter (\<lambda>c. c \<notin> removedCells rs) cs)"
proof (induction cs arbitrary: m0)
  case Nil
  show ?case by simp
next
  case (Cons x cs)
  have "image_mset cellOf (pend (fold (addPosition sz boxDims rs) (x # cs) m0))
      = image_mset cellOf (pend (addPosition sz boxDims rs x m0))
        + mset (filter (\<lambda>c. c \<notin> removedCells rs) cs)"
    by (simp add: Cons.IH)
  also have "\<dots> = image_mset cellOf (pend m0) + mset (filter (\<lambda>c. c \<notin> removedCells rs) [x])
        + mset (filter (\<lambda>c. c \<notin> removedCells rs) cs)"
    by (simp only: pend_addPosition)
  finally show ?case by simp
qed

lemma pend_Nil [simp]: "pend [] = {#}"
  by (simp add: pend_def)

lemma pend_build:
  "image_mset cellOf (pend (buildPositionsByColumn sz boxDims rs))
     = mset (filter (\<lambda>c. c \<notin> removedCells rs) (List.product [0..<sz] [0..<sz]))"
  unfolding buildPositionsByColumn_def by (simp only: build_fold pend_Nil) simp

lemma pend_sortPositions [simp]: "pend (sortPositions m) = pend m"
  by (induction m) (auto simp: pend_def sortPositions_def)

lemma fold_add_length: "fold (\<lambda>arr sum. sum + length arr) xs a = a + length (concat xs)"
  by (induction xs arbitrary: a) auto

lemma countPositions_pend: "countPositions m = size (pend m)"
  by (simp add: countPositions_def pend_def fold_add_length)

lemma pend_initial:
  assumes "removedCells rs \<subseteq> allCells sz"
  shows "image_mset cellOf (pend (buildPositionsByColumn sz boxDims rs))
           = mset_set (allCells sz - removedCells rs)"
proof -
  let ?l = "filter (\<lambda>c. c \<notin> removedCells rs) (List.product [0..<sz] [0..<sz])"
  have d: "distinct ?l"
    by (simp add: distinct_product)
  have s: "set ?l = allCells sz - removedCells rs"
    by (auto simp: set_product_allCells[symmetric])
  from d have "mset_set (set ?l) = mset ?l" by (rule mset_set_set)
  with s show ?thesis by (simp add: pend_build)
qed

lemma considerIndex_fst:
  "fst (considerIndex rs columnPositions idx best) = idx \<or>
   fst (considerIndex rs columnPositions idx best) = fst best"
  by (auto simp: considerIndex_def Let_def split: prod.splits)

lemma findBestIndex_fold_less:
  assumes "fst best < n" and "\<forall>x \<in> set xs. x < n"
  shows "fst (fold (considerIndex rs columnPositions) xs best) < n"
  using assms
proof (induction xs arbitrary: best)
  case Nil
  then show ?case by simp
next
  case (Cons x xs)
  from Cons.prems have "fst (considerIndex rs columnPositions x best) < n"
    using considerIndex_fst[of rs columnPositions x best] by auto
  with Cons.prems Cons.IH[of "considerIndex rs columnPositions x best"] show ?case by simp
qed

lemma findBestIndex_less:
  assumes "columnPositions \<noteq> []"
  shows "findBestIndex rs columnPositions < length columnPositions"
  unfolding findBestIndex_def
  by (rule findBestIndex_fold_less) (use assms in auto)

lemma mset_splice:
  assumes "i < length xs"
  shows "mset xs = mset (take i xs @ drop (Suc i) xs) + {#xs ! i#}"
proof -
  have "xs = take i xs @ xs ! i # drop (Suc i) xs"
    using assms by (rule id_take_nth_drop)
  then have "mset xs = mset (take i xs @ xs ! i # drop (Suc i) xs)" by simp
  then show ?thesis by simp
qed

lemma roundInv_foundAny [simp]: "roundInv sz boxDims rs0 c (s\<lparr>foundAny := b\<rparr>) = roundInv sz boxDims rs0 c s"
  by (simp add: roundInv_def)

lemma roundInv_step:
  assumes inv: "roundInv sz boxDims rs0 c s"
    and lt: "removedCount s < c"
    and cp: "map_of (positionsByColumn s) col = Some columnPositions"
    and ne: "columnPositions \<noteq> []"
    and best: "columnPositions ! findBestIndex (rstate s) columnPositions = (row, removedCol, p, r)"
  shows "roundInv sz boxDims rs0 c
           (s\<lparr>columnOrder := order',
              positionsByColumn := AList.update col
                 (take (findBestIndex (rstate s) columnPositions) columnPositions
                  @ drop (Suc (findBestIndex (rstate s) columnPositions)) columnPositions)
                 (positionsByColumn s),
              removedCount := removedCount s + 1,
              foundAny := True,
              rstate := removeCell sz boxDims row removedCol (rstate s)\<rparr>)"
proof -
  let ?bi = "findBestIndex (rstate s) columnPositions"
  let ?spliced = "take ?bi columnPositions @ drop (Suc ?bi) columnPositions"
  let ?R = "removedCells (rstate s)"
  let ?x = "(row, removedCol, p, r)"
  have bi: "?bi < length columnPositions" by (rule findBestIndex_less[OF ne])
  have "pend (AList.update col ?spliced (positionsByColumn s)) + mset columnPositions
      = pend (positionsByColumn s) + mset ?spliced"
    by (rule pend_update_Some[OF cp])
  moreover have "mset columnPositions = mset ?spliced + {#?x#}"
    using mset_splice[OF bi] best by simp
  ultimately have pend': "pend (positionsByColumn s)
      = pend (AList.update col ?spliced (positionsByColumn s)) + {#?x#}"
    by simp
  from inv have run: "removalRun sz boxDims rs0 (rstate s)" and sub: "?R \<subseteq> allCells sz"
    and img: "image_mset cellOf (pend (positionsByColumn s)) = mset_set (allCells sz - ?R)"
    and card: "card ?R = card (removedCells rs0) + removedCount s"
    by (auto simp: roundInv_def)
  have img': "mset_set (allCells sz - ?R)
      = image_mset cellOf (pend (AList.update col ?spliced (positionsByColumn s))) + {#(row, removedCol)#}"
    using img pend' by (simp add: cellOf_def)
  then have "(row, removedCol) \<in># mset_set (allCells sz - ?R)" by simp
  then have cell: "(row, removedCol) \<in> allCells sz - ?R"
    by (simp add: elem_mset_set)
  then have range: "row < sz" "removedCol < sz" and fresh: "(row, removedCol) \<notin> ?R"
    by (auto simp: allCells_def)
  have fin: "finite ?R" using sub by (rule finite_subset) simp
  have "mset_set (allCells sz - ?R)
      = add_mset (row, removedCol) (mset_set (allCells sz - ?R - {(row, removedCol)}))"
    by (rule mset_set.remove) (use cell in auto)
  with img' have "image_mset cellOf (pend (AList.update col ?spliced (positionsByColumn s)))
      = mset_set (allCells sz - ?R - {(row, removedCol)})"
    by simp
  moreover have "allCells sz - ?R - {(row, removedCol)} = allCells sz - insert (row, removedCol) ?R"
    by auto
  ultimately have img2: "image_mset cellOf (pend (AList.update col ?spliced (positionsByColumn s)))
      = mset_set (allCells sz - insert (row, removedCol) ?R)"
    by simp
  have run': "removalRun sz boxDims rs0 (removeCell sz boxDims row removedCol (rstate s))"
    using run range by (rule run_remove)
  have "card (insert (row, removedCol) ?R) = Suc (card ?R)"
    using fin fresh by simp
  with run' img2 sub cell card lt show ?thesis
    by (simp add: roundInv_def)
qed

lemma roundLoop_inv:
  "roundInv sz boxDims rs0 cellsToRemoveNow s
     \<Longrightarrow> roundInv sz boxDims rs0 cellsToRemoveNow (roundLoop sz boxDims cellsToRemoveNow idx s)"
proof (induction sz boxDims cellsToRemoveNow idx s rule: roundLoop.induct)
  case (1 sz boxDims cellsToRemoveNow idx s)
  show ?case
  proof (cases "idx < length (columnOrder s) \<and> removedCount s < cellsToRemoveNow")
    case False
    with 1(4) show ?thesis
      by (subst roundLoop.simps) (auto simp: Let_def)
  next
    case active: True
    show ?thesis
    proof (cases "map_of (positionsByColumn s) (columnOrder s ! idx)")
      case None
      with active 1(1)[OF _ refl _ None 1(4)] show ?thesis
        by (subst roundLoop.simps) (simp add: Let_def)
    next
      case (Some columnPositions)
      show ?thesis
      proof (cases "length columnPositions = 0")
        case True
        with active Some 1(2)[OF _ refl _ Some True 1(4)] show ?thesis
          by (subst roundLoop.simps) (simp add: Let_def)
      next
        case False
        obtain row removedCol p r where
          best: "columnPositions ! findBestIndex (rstate s) columnPositions = (row, removedCol, p, r)"
          by (metis prod_cases4)
        from active have lt: "removedCount s < cellsToRemoveNow" by simp
        from False have ne: "columnPositions \<noteq> []" by simp
        note step = roundInv_step[OF 1(4) lt Some ne best]
        from active Some False best
          1(3)[OF _ refl _ Some False refl best[symmetric] refl refl refl refl refl step]
        show ?thesis
          by (subst roundLoop.simps) (auto simp: Let_def)
      qed
    qed
  qed
qed

lemma whileLoop_inv:
  "roundInv sz boxDims rs0 cellsToRemoveNow s
     \<Longrightarrow> roundInv sz boxDims rs0 cellsToRemoveNow (whileLoop sz boxDims cellsToRemoveNow s)"
proof (induction sz boxDims cellsToRemoveNow s rule: whileLoop.induct)
  case (1 sz boxDims cellsToRemoveNow s)
  let ?s' = "roundLoop sz boxDims cellsToRemoveNow 0 (s\<lparr>foundAny := False\<rparr>)"
  have inv': "roundInv sz boxDims rs0 cellsToRemoveNow ?s'"
    using 1(2) by (intro roundLoop_inv) simp
  show ?case
  proof (cases "removedCount s < cellsToRemoveNow")
    case False
    with 1(2) show ?thesis by (subst whileLoop.simps) simp
  next
    case True
    show ?thesis
    proof (cases "foundAny ?s'")
      case False
      with True inv' show ?thesis by (subst whileLoop.simps) (simp add: Let_def)
    next
      case found: True
      from 1(1)[OF True refl _ inv'] found True show ?thesis
        by (subst whileLoop.simps) (simp add: Let_def)
    qed
  qed
qed

lemma fold_index_take:
  "n \<le> length xs \<Longrightarrow> fold (\<lambda>i acc. g (xs ! i) acc) [0..<n] a = fold g (take n xs) a"
proof (induction n)
  case 0
  show ?case by simp
next
  case (Suc n)
  then have "take (Suc n) xs = take n xs @ [xs ! n]"
    by (simp add: take_Suc_conv_app_nth)
  with Suc show ?case by simp
qed

lemma map_fst_tagged: "map fst (map (\<lambda>(i, j). ((i, j), f i j)) xs) = xs"
  by (induction xs) auto

lemma removeCells_fold:
  assumes "fst ` set xs \<subseteq> allCells sz"
  shows "removalRun sz boxDims rs
           (fold (\<lambda>x rs'. case fst x of (row, col) \<Rightarrow> removeCell sz boxDims row col rs') xs rs) \<and>
         removedCells (fold (\<lambda>x rs'. case fst x of (row, col) \<Rightarrow> removeCell sz boxDims row col rs') xs rs)
           = removedCells rs \<union> fst ` set xs"
  using assms
proof (induction xs arbitrary: rs)
  case Nil
  show ?case by (simp add: run_start)
next
  case (Cons x xs)
  let ?g = "\<lambda>x rs'. case fst x of (row, col) \<Rightarrow> removeCell sz boxDims row col rs'"
  obtain r c where rc: "fst x = (r, c)" by (cases "fst x")
  with Cons.prems have range: "r < sz" "c < sz"
    by (auto simp: allCells_def)
  have step: "removalRun sz boxDims rs (removeCell sz boxDims r c rs)"
    by (rule run_remove[OF run_start range])
  from Cons.prems have "fst ` set xs \<subseteq> allCells sz" by auto
  note ih = Cons.IH[OF this, of "removeCell sz boxDims r c rs"]
  have g: "fold ?g (x # xs) rs = fold ?g xs (removeCell sz boxDims r c rs)"
    using rc by simp
  have "removalRun sz boxDims rs (fold ?g xs (removeCell sz boxDims r c rs))"
    using ih step by (blast intro: removalRun_trans)
  moreover have "removedCells (fold ?g xs (removeCell sz boxDims r c rs))
      = removedCells rs \<union> fst ` set (x # xs)"
    using ih rc by auto
  ultimately show ?case by (simp only: g) 
qed

lemma fallback_result:
  assumes sub: "removedCells rs \<subseteq> allCells sz"
    and need: "stillNeed \<le> card (allCells sz - removedCells rs)"
  shows "removalRun sz boxDims rs (fallback sz boxDims stillNeed rs) \<and>
         card (removedCells (fallback sz boxDims stillNeed rs)) = card (removedCells rs) + stillNeed"
proof -
  let ?cells = "filter (\<lambda>(i, j). (i, j) \<notin> removedCells rs) (List.product [0..<sz] [0..<sz])"
  let ?rem = "map (\<lambda>(i, j). ((i, j), getCellPriority sz boxDims rs i j)) ?cells"
  let ?sorted = "sort_key snd ?rem"
  let ?g = "\<lambda>x rs'. case fst x of (row, col) \<Rightarrow> removeCell sz boxDims row col rs'"
  let ?n = "min stillNeed (length ?sorted)"
  have fst_rem: "map fst ?rem = ?cells" by (rule map_fst_tagged)
  have "mset (map fst ?sorted) = mset (map fst ?rem)"
    by (simp only: mset_map mset_sort)
  then have ms: "mset (map fst ?sorted) = mset ?cells" by (simp only: fst_rem)
  have dc: "distinct ?cells" by (simp add: distinct_product)
  have sc: "set ?cells = allCells sz - removedCells rs"
    by (auto simp: set_product_allCells[symmetric])
  have ds: "distinct (map fst ?sorted)"
    using mset_eq_imp_distinct_iff[OF ms] dc by simp
  have ss: "set (map fst ?sorted) = allCells sz - removedCells rs"
    using mset_eq_setD[OF ms] sc by simp
  have "card (set (map fst ?sorted)) = length (map fst ?sorted)"
    using ds by (rule distinct_card)
  then have len: "length ?sorted = card (allCells sz - removedCells rs)"
    by (simp only: ss length_map)
  with need have n: "?n = stillNeed" by simp
  have fb: "fallback sz boxDims stillNeed rs = fold ?g (take ?n ?sorted) rs"
    unfolding fallback_def Let_def by (rule fold_index_take) simp
  have "set (take ?n ?sorted) \<subseteq> set ?sorted" by (rule set_take_subset)
  then have "fst ` set (take ?n ?sorted) \<subseteq> fst ` set ?sorted" by (rule image_mono)
  moreover have "fst ` set ?sorted = set (map fst ?sorted)" by (simp only: set_map)
  ultimately have sub_take: "fst ` set (take ?n ?sorted) \<subseteq> allCells sz - removedCells rs"
    by (simp only: ss)
  then have sub_all: "fst ` set (take ?n ?sorted) \<subseteq> allCells sz" by auto
  note res = removeCells_fold[OF sub_all, of boxDims rs]
  have "distinct (take ?n (map fst ?sorted))"
    using ds by (rule distinct_take)
  then have "distinct (map fst (take ?n ?sorted))"
    by (simp only: take_map)
  then have "card (set (map fst (take ?n ?sorted))) = length (map fst (take ?n ?sorted))"
    by (rule distinct_card)
  then have c2: "card (fst ` set (take ?n ?sorted)) = stillNeed"
    using n len need by (simp del: length_sort)
  have fin: "finite (removedCells rs)" using sub by (rule finite_subset) simp
  have "card (removedCells rs \<union> fst ` set (take ?n ?sorted))
      = card (removedCells rs) + card (fst ` set (take ?n ?sorted))"
    using sub_take fin by (intro card_Un_disjoint) auto
  then have cu: "card (removedCells rs \<union> fst ` set (take ?n ?sorted)) = card (removedCells rs) + stillNeed"
    by (simp only: c2)
  from res have r1: "removalRun sz boxDims rs (fold ?g (take ?n ?sorted) rs)"
    and r2: "removedCells (fold ?g (take ?n ?sorted) rs) = removedCells rs \<union> fst ` set (take ?n ?sorted)"
    by blast+
  show ?thesis
    by (simp only: fb r1 r2 cu simp_thms)
qed

lemma targetCellsToRemove_le: "targetCellsToRemove sz difficulty \<le> sz * sz"
proof -
  have q: "0 \<le> 1 - percentages difficulty" "1 - percentages difficulty \<le> 1"
    by (cases difficulty; simp add: percentages_def)+
  have "of_nat (sz * sz) * (1 - percentages difficulty) \<le> (of_nat (sz * sz) :: rat)"
    using q by (simp add: mult_left_le)
  then have "\<lfloor>of_nat (sz * sz) * (1 - percentages difficulty)\<rfloor> \<le> int (sz * sz)"
    by (metis floor_mono floor_of_nat)
  then show ?thesis
    by (simp add: targetCellsToRemove_def Let_def nat_le_iff)
qed

lemma step4_result:
  assumes sub: "removedCells rs \<subseteq> allCells sz" and target: "target \<le> sz * sz"
  shows "removalRun sz boxDims rs (step4 sz boxDims target rs) \<and>
         card (removedCells (step4 sz boxDims target rs)) = max target (card (removedCells rs))"
proof (cases "target \<le> card (removedCells rs)")
  case True
  then show ?thesis by (simp add: step4_def Let_def run_start)
next
  case False
  let ?n0 = "card (removedCells rs)"
  let ?positions = "sortPositions (buildPositionsByColumn sz boxDims rs)"
  have fin: "finite (removedCells rs)" using sub by (rule finite_subset) simp
  have "size (pend ?positions) = size (image_mset cellOf (pend ?positions))" by simp
  also have "\<dots> = card (allCells sz - removedCells rs)"
    by (simp add: pend_initial[OF sub])
  also have "\<dots> = sz * sz - ?n0"
    using sub fin by (simp add: card_Diff_subset)
  finally have count: "countPositions ?positions = sz * sz - ?n0"
    by (simp add: countPositions_pend)
  define c where "c = target - ?n0"
  from False target have c: "min (target - ?n0) (countPositions ?positions) = c" and cpos: "0 < c"
    by (auto simp: count c_def)
  define s0 where "s0 = \<lparr>columnOrder = sortColumnOrder rs [0..<sz], positionsByColumn = ?positions,
                      removedCount = 0, foundAny = False, rstate = rs\<rparr>"
  define s where "s = whileLoop sz boxDims c s0"
  have "roundInv sz boxDims rs c s0"
    by (simp add: roundInv_def s0_def run_start sub pend_initial[OF sub])
  then have inv: "roundInv sz boxDims rs c s"
    unfolding s_def by (rule whileLoop_inv)
  then have run: "removalRun sz boxDims rs (rstate s)"
    and sub': "removedCells (rstate s) \<subseteq> allCells sz"
    and card: "card (removedCells (rstate s)) = ?n0 + removedCount s"
    and le: "removedCount s \<le> c"
    by (auto simp: roundInv_def)
  have st4: "step4 sz boxDims target rs =
      (if removedCount s < c then fallback sz boxDims (c - removedCount s) (rstate s) else rstate s)"
    using False cpos c by (simp add: step4_def Let_def s_def s0_def c_def)
  show ?thesis
  proof (cases "removedCount s < c")
    case True
    have fin': "finite (removedCells (rstate s))" using sub' by (rule finite_subset) simp
    have "card (allCells sz - removedCells (rstate s)) = sz * sz - (?n0 + removedCount s)"
      using sub' fin' card by (simp add: card_Diff_subset)
    then have "c - removedCount s \<le> card (allCells sz - removedCells (rstate s))"
      using target by (simp add: c_def)
    from fallback_result[OF sub' this, of boxDims] run card True False st4 show ?thesis
      by (auto simp: c_def intro: removalRun_trans)
  next
    case ge: False
    with le have "removedCount s = c" by simp
    with run card False st4 ge show ?thesis by (simp add: c_def)
  qed
qed

section \<open>The store during a removal run\<close>

lemma storeRel_removeCell:
  assumes ok: "puzzleOK sz rs0" and rel: "storeRel sz rs0 rs" and r: "r < sz" and c: "c < sz"
  shows "storeRel sz rs0 (removeCell sz boxDims r c rs)"
proof (cases "(r, c) \<in> removedCells rs")
  case True
  then have "removeCell sz boxDims r c rs = rs" by (simp add: removeCell_def)
  with rel True show ?thesis by simp
next
  case False
  let ?a = "puzzle rs0 ! r"
  let ?st' = "(store rs)[?a := (store rs ! ?a)[c := 0]]"
  from ok r have a_in: "?a \<in> set (puzzle rs0)" by (simp add: puzzleOK_def)
  with ok rel have a_lt: "?a < length (store rs)" and a_len: "length (store rs ! ?a) = sz"
    by (auto simp: puzzleOK_def storeRel_def)
  have st: "store (removeCell sz boxDims r c rs) = ?st'"
    using False rel by (simp add: removeCell_def Let_def storeRel_def)
  have other: "?st' ! (puzzle rs0 ! r') ! c' =
      (if (r', c') \<in> insert (r, c) (removedCells rs) then 0 else store rs0 ! (puzzle rs0 ! r') ! c')"
    if r': "r' < sz" and c': "c' < sz" for r' c'
  proof -
    from rel r' c' have old: "store rs ! (puzzle rs0 ! r') ! c'
        = (if (r', c') \<in> removedCells rs then 0 else store rs0 ! (puzzle rs0 ! r') ! c')"
      by (simp add: storeRel_def)
    show ?thesis
    proof (cases "r' = r")
      case True
      have "?st' ! ?a = (store rs ! ?a)[c := 0]"
        using a_lt by simp
      moreover have "(store rs ! ?a)[c := 0] ! c' = (if c' = c then 0 else store rs ! ?a ! c')"
        using c a_len by (simp add: nth_list_update)
      ultimately show ?thesis using True old by auto
    next
      case neq: False
      from ok r r' neq have "puzzle rs0 ! r' \<noteq> ?a"
        by (simp add: puzzleOK_def nth_eq_iff_index_eq)
      with old neq show ?thesis by simp
    qed
  qed
  have frame: "?st' ! a = store rs0 ! a" if "a \<notin> set (puzzle rs0)" for a
  proof -
    from that a_in have "a \<noteq> ?a" by auto
    with rel that show ?thesis by (simp add: storeRel_def)
  qed
  have lens: "length (?st' ! a) = sz" if "a \<in> set (puzzle rs0)" for a
    using that rel a_lt by (cases "a = ?a") (auto simp: storeRel_def)
  from rel other frame lens show ?thesis
    unfolding storeRel_def st by (simp add: removeCell_def Let_def)
qed

lemma removalRun_storeRel:
  assumes "removalRun sz boxDims rs0 rs" and "puzzleOK sz rs0" and "removedCells rs0 = {}"
  shows "storeRel sz rs0 rs"
  using assms
proof (induction rule: removalRun.induct)
  case run_start
  then show ?case by (simp add: storeRel_def puzzleOK_def)
next
  case (run_draw rs' d)
  then show ?case by (simp add: storeRel_def)
next
  case (run_remove rs' r c)
  then show ?case by (simp add: storeRel_removeCell)
qed

section \<open>Copying the rows\<close>

lemma copyRows_fold:
  assumes "\<forall>a \<in> set xs. a < length h0"
    and "take (length h0) (heap st) = h0"
  shows "fold (\<lambda>a (copied, st'). case alloc (heap st' ! a) st' of (b, st'') \<Rightarrow> (copied @ [b], st''))
           xs (copied, st)
         = (copied @ [length (heap st)..<length (heap st) + length xs],
            st\<lparr>heap := heap st @ map (\<lambda>a. h0 ! a) xs\<rparr>)"
  using assms
proof (induction xs arbitrary: copied st)
  case Nil
  show ?case by simp
next
  case (Cons a xs)
  from Cons.prems have a: "a < length h0" by simp
  from Cons.prems(2) have le: "length h0 \<le> length (heap st)"
    by (metis length_take min.cobounded2 min.commute)
  have "heap st ! a = take (length h0) (heap st) ! a" using a by simp
  then have rd: "heap st ! a = h0 ! a" by (simp only: Cons.prems(2))
  let ?st1 = "st\<lparr>heap := heap st @ [h0 ! a]\<rparr>"
  have pre: "take (length h0) (heap ?st1) = h0"
    using Cons.prems(2) le by simp
  from Cons.prems have "\<forall>a \<in> set xs. a < length h0" by simp
  note ih = Cons.IH[OF this pre, of "copied @ [length (heap st)]"]
  let ?f = "\<lambda>a (copied, st'). case alloc (heap st' ! a) st' of (b, st'') \<Rightarrow> (copied @ [b], st'')"
  have step: "fold ?f (a # xs) (copied, st) = fold ?f xs (copied @ [length (heap st)], ?st1)"
    by (simp add: alloc_def rd)
  have e1: "(copied @ [length (heap st)]) @ [length (heap ?st1)..<length (heap ?st1) + length xs]
      = copied @ [length (heap st)..<length (heap st) + length (a # xs)]"
    by (simp add: upt_conv_Cons del: upt_Suc)
  have e2: "?st1\<lparr>heap := heap ?st1 @ map (\<lambda>a. h0 ! a) xs\<rparr>
      = st\<lparr>heap := heap st @ map (\<lambda>a. h0 ! a) (a # xs)\<rparr>"
    by simp
  show ?case
    by (simp only: step ih e1 e2)
qed

lemma copyRows_result:
  assumes "\<forall>a \<in> set grid. a < length (heap st)"
  shows "copyRows grid st
         = ([length (heap st)..<length (heap st) + length grid],
            st\<lparr>heap := heap st @ map (\<lambda>a. heap st ! a) grid\<rparr>)"
  unfolding copyRows_def
  using copyRows_fold[OF assms, of st "[]"] by simp

lemma initRemovalState_fields [simp]:
  "puzzle (initRemovalState sz boxDims p st) = p"
  "store (initRemovalState sz boxDims p st) = heap st"
  "draws (initRemovalState sz boxDims p st) = rpos st"
  "removedCells (initRemovalState sz boxDims p st) = {}"
  "rowsWithRemovals (initRemovalState sz boxDims p st) = {}"
  "colsWithRemovals (initRemovalState sz boxDims p st) = {}"
  "boxesWithRemovals (initRemovalState sz boxDims p st) = {}"
  by (simp_all add: initRemovalState_def Let_def)

lemma freshCopy_fields:
  assumes "wellFormed sz grid st"
  shows "puzzle (freshCopy sz boxDims grid st) = [length (heap st)..<length (heap st) + sz]"
    and "store (freshCopy sz boxDims grid st) = heap st @ map (\<lambda>a. heap st ! a) grid"
    and "removedCells (freshCopy sz boxDims grid st) = {}"
    and "puzzleOK sz (freshCopy sz boxDims grid st)"
proof -
  from assms have v: "\<forall>a \<in> set grid. a < length (heap st)" and len: "length grid = sz"
    by (auto simp: wellFormed_def)
  note cr = copyRows_result[OF v]
  show p: "puzzle (freshCopy sz boxDims grid st) = [length (heap st)..<length (heap st) + sz]"
    by (simp add: freshCopy_def cr len)
  show s: "store (freshCopy sz boxDims grid st) = heap st @ map (\<lambda>a. heap st ! a) grid"
    by (simp add: freshCopy_def cr)
  show "removedCells (freshCopy sz boxDims grid st) = {}"
    by (simp add: freshCopy_def)
  have "length ((heap st @ map (\<lambda>a. heap st ! a) grid) ! a) = sz"
    if "a \<in> set [length (heap st)..<length (heap st) + sz]" for a
  proof -
    from that obtain k where k: "a = length (heap st) + k" "k < sz"
      by (auto simp: le_iff_add)
    with len have "(heap st @ map (\<lambda>a. heap st ! a) grid) ! a = heap st ! (grid ! k)"
      by (simp add: nth_append)
    moreover from k len have "grid ! k \<in> set grid" by simp
    ultimately show ?thesis using assms by (simp add: wellFormed_def)
  qed
  then show "puzzleOK sz (freshCopy sz boxDims grid st)"
    unfolding puzzleOK_def p s using len by auto
qed

lemma runSteps_run:
  assumes bd: "getBoxDimensions sz = Inr boxDims" and e: "removedCells rs0 = {}"
  shows "removalRun sz boxDims rs0 (coverage rnd sz boxDims rs0)"
    and "removalRun sz boxDims rs0 (runSteps rnd sz boxDims (targetCellsToRemove sz difficulty) rs0)"
    and "card (removedCells (runSteps rnd sz boxDims (targetCellsToRemove sz difficulty) rs0))
           = max (targetCellsToRemove sz difficulty) (card (removedCells (coverage rnd sz boxDims rs0)))"
proof -
  let ?rs1 = "step1 rnd sz boxDims rs0"
  let ?rs2 = "step2 rnd sz boxDims ?rs1"
  let ?rs3 = "step3 rnd sz boxDims ?rs2"
  have r1: "removalRun sz boxDims rs0 ?rs1" by (rule step1_run)
  have r2: "removalRun sz boxDims rs0 ?rs2"
    by (rule removalRun_trans[OF step2_run r1])
  show r3: "removalRun sz boxDims rs0 (coverage rnd sz boxDims rs0)"
    unfolding coverage_def by (rule removalRun_trans[OF step3_run[OF bd] r2])
  have sub: "removedCells (coverage rnd sz boxDims rs0) \<subseteq> allCells sz"
    using removalRun_removedCells[OF r3] e by simp
  note s4 = step4_result[OF sub targetCellsToRemove_le, of boxDims difficulty]
  have rs: "runSteps rnd sz boxDims (targetCellsToRemove sz difficulty) rs0
      = step4 sz boxDims (targetCellsToRemove sz difficulty) (coverage rnd sz boxDims rs0)"
    by (simp add: runSteps_def coverage_def)
  show "removalRun sz boxDims rs0 (runSteps rnd sz boxDims (targetCellsToRemove sz difficulty) rs0)"
    unfolding rs using s4 r3 by (blast intro: removalRun_trans)
  show "card (removedCells (runSteps rnd sz boxDims (targetCellsToRemove sz difficulty) rs0))
           = max (targetCellsToRemove sz difficulty) (card (removedCells (coverage rnd sz boxDims rs0)))"
    unfolding rs using s4 by simp
qed

lemma createPuzzle_unfold:
  assumes bd: "getBoxDimensions sz = Inr boxDims"
  shows "createPuzzle rnd grid sz difficulty st =
           (Inr (puzzle (freshCopy sz boxDims grid st)),
            (snd (copyRows grid st))
              \<lparr>heap := store (runSteps rnd sz boxDims (targetCellsToRemove sz difficulty)
                                (freshCopy sz boxDims grid st)),
               rpos := draws (runSteps rnd sz boxDims (targetCellsToRemove sz difficulty)
                                (freshCopy sz boxDims grid st))\<rparr>)"
proof -
  from bd have "sz = 4 \<or> sz = 6 \<or> sz = 9"
    by (auto simp: getBoxDimensions_def split: if_splits)
  then have "assertValidSize sz = Inr ()" by (simp add: assertValidSize_Inr)
  then show ?thesis
    by (cases "copyRows grid st") (simp add: createPuzzle_def bd finishPuzzle_def freshCopy_def)
qed

lemma concat_grid:
  assumes "length g = sz" and "\<forall>r < sz. length (g ! r) = sz"
  shows "concat g = map (\<lambda>(r, c). g ! r ! c) (List.product [0..<sz] [0..<sz])"
proof -
  have "g = map (\<lambda>r. map (\<lambda>c. g ! r ! c) [0..<sz]) [0..<sz]"
    using assms by (intro nth_equalityI) (auto intro: nth_equalityI)
  then have "concat g = concat (map (\<lambda>r. map (\<lambda>c. g ! r ! c) [0..<sz]) [0..<sz])"
    by simp
  also have "\<dots> = map (\<lambda>(r, c). g ! r ! c) (List.product [0..<sz] [0..<sz])"
    by (simp add: product_concat_map map_concat comp_def)
  finally show ?thesis .
qed

lemma zeroCells_card:
  assumes "length g = sz" and "\<forall>r < sz. length (g ! r) = sz"
  shows "zeroCells g = card {(r, c). (r, c) \<in> allCells sz \<and> g ! r ! c = 0}"
proof -
  let ?cells = "List.product [0..<sz] [0..<sz]"
  have "zeroCells g = length (filter (\<lambda>x. g ! fst x ! snd x = 0) ?cells)"
    by (simp add: zeroCells_def concat_grid[OF assms] filter_map comp_def case_prod_beta)
  also have "\<dots> = card ({x. g ! fst x ! snd x = 0} \<inter> set ?cells)"
    by (rule distinct_length_filter) (simp add: distinct_product)
  also have "{x. g ! fst x ! snd x = 0} \<inter> set ?cells
      = {(r, c). (r, c) \<in> allCells sz \<and> g ! r ! c = 0}"
    by (auto simp: set_product_allCells[symmetric])
  finally show ?thesis .
qed

text \<open>What a run from the fresh copy leaves in the puzzle.\<close>

lemma run_puzzle_cells:
  assumes wf: "wellFormed sz grid st"
    and run: "removalRun sz boxDims (freshCopy sz boxDims grid st) rs"
  shows "puzzle rs = [length (heap st)..<length (heap st) + sz]"
    and "length (store rs) = length (heap st) + sz"
    and "\<forall>a < length (heap st). store rs ! a = heap st ! a"
    and "\<forall>r < sz. length (gridOf (store rs) (puzzle rs) ! r) = sz"
    and "\<forall>r < sz. \<forall>c < sz. gridOf (store rs) (puzzle rs) ! r ! c
           = (if (r, c) \<in> removedCells rs then 0 else gridOf (heap st) grid ! r ! c)"
proof -
  let ?rs0 = "freshCopy sz boxDims grid st"
  let ?n = "length (heap st)"
  note f = freshCopy_fields[OF wf, of boxDims]
  from wf have len: "length grid = sz" by (simp add: wellFormed_def)
  have rel: "storeRel sz ?rs0 rs"
    by (rule removalRun_storeRel[OF run f(4) f(3)])
  show p: "puzzle rs = [?n..<?n + sz]"
    using rel f(1) by (simp add: storeRel_def)
  show "length (store rs) = ?n + sz"
    using rel f(2) len by (simp add: storeRel_def)
  show "\<forall>a < ?n. store rs ! a = heap st ! a"
  proof (intro allI impI)
    fix a assume a: "a < ?n"
    then have "a \<notin> set (puzzle ?rs0)" by (simp add: f(1))
    with rel have "store rs ! a = store ?rs0 ! a" by (simp add: storeRel_def)
    with a show "store rs ! a = heap st ! a" by (simp add: f(2) nth_append)
  qed
  have orig: "store ?rs0 ! (puzzle ?rs0 ! r) = heap st ! (grid ! r)" if "r < sz" for r
    using that len by (simp add: f(1) f(2) nth_append)
  show "\<forall>r < sz. length (gridOf (store rs) (puzzle rs) ! r) = sz"
    using rel f(1) by (auto simp: storeRel_def gridOf_def)
  show "\<forall>r < sz. \<forall>c < sz. gridOf (store rs) (puzzle rs) ! r ! c
           = (if (r, c) \<in> removedCells rs then 0 else gridOf (heap st) grid ! r ! c)"
  proof (intro allI impI)
    fix r c assume r: "r < sz" and c: "c < sz"
    from rel r c have "store rs ! (puzzle ?rs0 ! r) ! c
        = (if (r, c) \<in> removedCells rs then 0 else store ?rs0 ! (puzzle ?rs0 ! r) ! c)"
      by (simp add: storeRel_def)
    moreover have "gridOf (store rs) (puzzle rs) ! r = store rs ! (puzzle ?rs0 ! r)"
      using r p f(1) by (simp add: gridOf_def)
    moreover have "gridOf (heap st) grid ! r = heap st ! (grid ! r)"
      using r len by (simp add: gridOf_def)
    ultimately show "gridOf (store rs) (puzzle rs) ! r ! c
           = (if (r, c) \<in> removedCells rs then 0 else gridOf (heap st) grid ! r ! c)"
      using orig[OF r] by simp
  qed
qed

section \<open>Unsupported sizes\<close>

text \<open>
  C7 (as amended). The box shape is (3,3) for 9, (2,3) for 6 and (2,2) for 4; for every
  other size \<open>getBoxDimensions\<close> fails with the unsupported-size error. There is no
  square-root fallback: a size with an integral square root outside the table fails too.
\<close>

theorem getBoxDimensions_table:
  "getBoxDimensions 9 = Inr \<lparr>rows = 3, cols = 3\<rparr> \<and>
   getBoxDimensions 6 = Inr \<lparr>rows = 2, cols = 3\<rparr> \<and>
   getBoxDimensions 4 = Inr \<lparr>rows = 2, cols = 2\<rparr> \<and>
   (\<forall>sz. sz \<noteq> 9 \<and> sz \<noteq> 6 \<and> sz \<noteq> 4 \<longrightarrow> getBoxDimensions sz = Inl UnsupportedSizeError)"
  by (simp add: getBoxDimensions_def)

theorem getBoxDimensions_table_witness:
  "getBoxDimensions 25 = Inl UnsupportedSizeError \<and> getBoxDimensions 6 = Inr \<lparr>rows = 2, cols = 3\<rparr>"
  using getBoxDimensions_table by simp

text \<open>
  The claim C7 as stated fails at size 16, whose square root is integral: the result is
  the error, not the square box shape (4,4).
\<close>

theorem getBoxDimensions_16_counterexample:
  "getBoxDimensions 16 = Inl UnsupportedSizeError \<and> getBoxDimensions 16 \<noteq> Inr \<lparr>rows = 4, cols = 4\<rparr>"
  by (simp add: getBoxDimensions_def)

text \<open>
  C6. For a size outside 4, 6 and 9, \<open>generateSudoku\<close> and \<open>createPuzzle\<close> fail with
  the unsupported-size error, whatever the fuel, the draws, the grid and the difficulty,
  and the state they return is the state they were given: nothing was allocated, copied
  or removed, no digit list was cached and no random number was drawn.
\<close>

theorem unsupported_size_fails_first:
  assumes "sz \<noteq> 4" and "sz \<noteq> 6" and "sz \<noteq> 9"
  shows "generateSudoku fuel rnd sz st = Some (Inl UnsupportedSizeError, st) \<and>
         createPuzzle rnd grid sz difficulty st = (Inl UnsupportedSizeError, st)"
proof -
  from assms have "assertValidSize sz = Inl UnsupportedSizeError"
    by (simp add: assertValidSize_Inl)
  then show ?thesis
    by (simp add: generateSudoku_def createPuzzle_def)
qed

theorem unsupported_size_fails_first_witness:
  "generateSudoku 0 (\<lambda>p. p) 5 \<lparr>heap = [[1, 2]], digitsCache = Map.empty, rpos = 7\<rparr>
     = Some (Inl UnsupportedSizeError, \<lparr>heap = [[1, 2]], digitsCache = Map.empty, rpos = 7\<rparr>) \<and>
   createPuzzle (\<lambda>p. p) [0] 5 Hard \<lparr>heap = [[1, 2]], digitsCache = Map.empty, rpos = 7\<rparr>
     = (Inl UnsupportedSizeError, \<lparr>heap = [[1, 2]], digitsCache = Map.empty, rpos = 7\<rparr>)"
  using unsupported_size_fails_first[of 5 0 "\<lambda>p. p" "\<lparr>heap = [[1, 2]], digitsCache = Map.empty, rpos = 7\<rparr>" "[0]" Hard]
  by simp

section \<open>The coverage steps\<close>

lemma trackInv_removeCell:
  "trackInv sz boxDims rs \<Longrightarrow> trackInv sz boxDims (removeCell sz boxDims r c rs)"
  by (auto simp: trackInv_def removeCell_def Let_def)

lemma trackInv_draws [simp]: "trackInv sz boxDims (rs\<lparr>draws := d\<rparr>) = trackInv sz boxDims rs"
  by (simp add: trackInv_def)

lemma removalRun_trackInv:
  assumes "removalRun sz boxDims rs0 rs" and "trackInv sz boxDims rs0"
  shows "trackInv sz boxDims rs"
  using assms by (induction rule: removalRun.induct) (simp_all add: trackInv_removeCell)

lemma removalRun_mono:
  assumes "removalRun sz boxDims rs0 rs"
  shows "removedCells rs0 \<subseteq> removedCells rs \<and> rowsWithRemovals rs0 \<subseteq> rowsWithRemovals rs \<and>
         colsWithRemovals rs0 \<subseteq> colsWithRemovals rs \<and> boxesWithRemovals rs0 \<subseteq> boxesWithRemovals rs"
  using assms by (induction rule: removalRun.induct) (auto simp: removeCell_def Let_def)

text \<open>A coverage step removes one cell of the row, column or box it is run on, or nothing.\<close>

lemma step1_row_cases:
  "step1_row rnd sz boxDims row rs = rs \<and> (row \<in> rowsWithRemovals rs \<or> (\<forall>c < sz. (row, c) \<in> removedCells rs)) \<or>
   (\<exists>c < sz. (row, c) \<notin> removedCells rs \<and> row \<notin> rowsWithRemovals rs \<and>
      step1_row rnd sz boxDims row rs = removeCell sz boxDims row c (rs\<lparr>draws := draws rs + 1\<rparr>))"
proof -
  let ?av = "map (\<lambda>col. (col, getCellPriority sz boxDims rs row col))
                (filter (\<lambda>col. (row, col) \<notin> removedCells rs) [0..<sz])"
  show ?thesis
  proof (cases "row \<notin> rowsWithRemovals rs \<and> ?av \<noteq> []")
    case False
    then have "step1_row rnd sz boxDims row rs = rs" by (auto simp: step1_row_def Let_def)
    moreover from False have "row \<in> rowsWithRemovals rs \<or> (\<forall>c < sz. (row, c) \<in> removedCells rs)"
      by (auto simp: filter_empty_conv)
    ultimately show ?thesis by simp
  next
    case True
    obtain x rs' where p: "pickTop rnd ?av rs = (x, rs')" by (cases "pickTop rnd ?av rs")
    from pickTop_result[OF _ p] True
    have x: "x \<in> fst ` set ?av" and rs': "rs' = rs\<lparr>draws := draws rs + 1\<rparr>" by auto
    from x have "x < sz" "(row, x) \<notin> removedCells rs" by auto
    moreover have "step1_row rnd sz boxDims row rs = removeCell sz boxDims row x rs'"
      using True p by (simp add: step1_row_def Let_def)
    ultimately show ?thesis using True rs' by auto
  qed
qed

lemma step2_col_cases:
  "step2_col rnd sz boxDims col rs = rs \<and> (col \<in> colsWithRemovals rs \<or> (\<forall>r < sz. (r, col) \<in> removedCells rs)) \<or>
   (\<exists>r < sz. (r, col) \<notin> removedCells rs \<and> col \<notin> colsWithRemovals rs \<and>
      step2_col rnd sz boxDims col rs = removeCell sz boxDims r col (rs\<lparr>draws := draws rs + 1\<rparr>))"
proof -
  let ?av = "map (\<lambda>row. (row, getCellPriority sz boxDims rs row col))
                (filter (\<lambda>row. (row, col) \<notin> removedCells rs) [0..<sz])"
  show ?thesis
  proof (cases "col \<notin> colsWithRemovals rs \<and> ?av \<noteq> []")
    case False
    then have "step2_col rnd sz boxDims col rs = rs" by (auto simp: step2_col_def Let_def)
    moreover from False have "col \<in> colsWithRemovals rs \<or> (\<forall>r < sz. (r, col) \<in> removedCells rs)"
      by (auto simp: filter_empty_conv)
    ultimately show ?thesis by simp
  next
    case True
    obtain x rs' where p: "pickTop rnd ?av rs = (x, rs')" by (cases "pickTop rnd ?av rs")
    from pickTop_result[OF _ p] True
    have x: "x \<in> fst ` set ?av" and rs': "rs' = rs\<lparr>draws := draws rs + 1\<rparr>" by auto
    from x have "x < sz" "(x, col) \<notin> removedCells rs" by auto
    moreover have "step2_col rnd sz boxDims col rs = removeCell sz boxDims x col rs'"
      using True p by (simp add: step2_col_def Let_def)
    ultimately show ?thesis using True rs' by auto
  qed
qed

lemma step3_box_cases:
  "step3_box rnd sz boxDims boxIdx rs = rs \<and>
     (boxIdx \<in> boxesWithRemovals rs \<or> set (boxCellsOf sz boxDims boxIdx) \<subseteq> removedCells rs) \<or>
   (\<exists>cell \<in> set (boxCellsOf sz boxDims boxIdx). cell \<notin> removedCells rs \<and> boxIdx \<notin> boxesWithRemovals rs \<and>
      step3_box rnd sz boxDims boxIdx rs = removeCell sz boxDims (fst cell) (snd cell) (rs\<lparr>draws := draws rs + 1\<rparr>))"
proof -
  let ?cells = "boxCellsOf sz boxDims boxIdx"
  let ?av = "map (\<lambda>(row, col). ((row, col), getCellPriority sz boxDims rs row col))
                (filter (\<lambda>(row, col). (row, col) \<notin> removedCells rs) ?cells)"
  have def: "step3_box rnd sz boxDims boxIdx rs =
     (if boxIdx \<notin> boxesWithRemovals rs then
        if length ?av > 0 then
             let ((randomRow, randomCol), rs') = pickTop rnd ?av rs
             in removeCell sz boxDims randomRow randomCol rs'
           else rs
      else rs)"
    unfolding step3_box_def boxCellsOf_def Let_def by (rule refl)
  show ?thesis
  proof (cases "boxIdx \<notin> boxesWithRemovals rs \<and> ?av \<noteq> []")
    case False
    then have "step3_box rnd sz boxDims boxIdx rs = rs" by (auto simp: def)
    moreover from False have "boxIdx \<in> boxesWithRemovals rs \<or> set ?cells \<subseteq> removedCells rs"
      by (auto simp: filter_empty_conv)
    ultimately show ?thesis by simp
  next
    case True
    obtain x rs' where p: "pickTop rnd ?av rs = (x, rs')" by (cases "pickTop rnd ?av rs")
    from pickTop_result[OF _ p] True
    have x: "x \<in> fst ` set ?av" and rs': "rs' = rs\<lparr>draws := draws rs + 1\<rparr>" by auto
    from x have "x \<in> set ?cells" "x \<notin> removedCells rs" by (auto simp: image_iff)
    moreover have "step3_box rnd sz boxDims boxIdx rs = removeCell sz boxDims (fst x) (snd x) rs'"
      using True p by (cases x) (simp add: def)
    ultimately show ?thesis using True rs' by auto
  qed
qed

lemma card_removeCell_le:
  "card (removedCells (removeCell sz boxDims r c rs)) \<le> Suc (card (removedCells rs))"
  by (cases "finite (removedCells rs)") (auto simp: card_insert_if)

lemma step1_row_card:
  "card (removedCells (step1_row rnd sz boxDims row rs)) \<le> Suc (card (removedCells rs))"
  using step1_row_cases[of rnd sz boxDims row rs]
    card_removeCell_le[of sz boxDims row _ "rs\<lparr>draws := draws rs + 1\<rparr>"]
  by auto

lemma step2_col_card:
  "card (removedCells (step2_col rnd sz boxDims col rs)) \<le> Suc (card (removedCells rs))"
  using step2_col_cases[of rnd sz boxDims col rs]
    card_removeCell_le[of sz boxDims _ col "rs\<lparr>draws := draws rs + 1\<rparr>"]
  by auto

lemma step3_box_card:
  "card (removedCells (step3_box rnd sz boxDims boxIdx rs)) \<le> Suc (card (removedCells rs))"
  using step3_box_cases[of rnd sz boxDims boxIdx rs]
    card_removeCell_le[of sz boxDims _ _ "rs\<lparr>draws := draws rs + 1\<rparr>"]
  by auto

lemma cover_fold_bound:
  fixes f :: "nat \<Rightarrow> RemovalState \<Rightarrow> RemovalState" and cov :: "RemovalState \<Rightarrow> nat set"
  assumes skip: "\<And>x rs. x \<in> cov rs \<Longrightarrow> f x rs = rs"
    and one: "\<And>x rs. card (removedCells (f x rs)) \<le> Suc (card (removedCells rs))"
    and mono: "\<And>x rs. cov rs \<subseteq> cov (f x rs)"
    and dist: "distinct xs"
  shows "card (removedCells (fold f xs rs)) + card (set xs \<inter> cov rs)
           \<le> card (removedCells rs) + length xs"
  using dist
proof (induction xs arbitrary: rs)
  case Nil
  show ?case by simp
next
  case (Cons x xs)
  from Cons.prems have d: "distinct xs" and nx: "x \<notin> set xs" by auto
  note ih = Cons.IH[OF d, of "f x rs"]
  show ?case
  proof (cases "x \<in> cov rs")
    case True
    then have same: "f x rs = rs" by (rule skip)
    have "set (x # xs) \<inter> cov rs = insert x (set xs \<inter> cov rs)" using True by auto
    then have "card (set (x # xs) \<inter> cov rs) = Suc (card (set xs \<inter> cov rs))"
      using nx by simp
    with ih same show ?thesis by simp
  next
    case False
    then have "set (x # xs) \<inter> cov rs = set xs \<inter> cov rs" by auto
    moreover have "card (set xs \<inter> cov rs) \<le> card (set xs \<inter> cov (f x rs))"
      using mono[of rs x] by (intro card_mono) auto
    ultimately show ?thesis using ih one[of x rs] by simp
  qed
qed

lemma step1_bound: "card (removedCells (step1 rnd sz boxDims rs)) \<le> card (removedCells rs) + sz"
proof -
  have "card (removedCells (fold (step1_row rnd sz boxDims) [0..<sz] rs)) + card (set [0..<sz] \<inter> rowsWithRemovals rs)
      \<le> card (removedCells rs) + length [0..<sz]"
  proof (rule cover_fold_bound)
    show "step1_row rnd sz boxDims x rs = rs" if "x \<in> rowsWithRemovals rs" for x rs
      using that by (simp add: step1_row_def)
    show "card (removedCells (step1_row rnd sz boxDims x rs)) \<le> Suc (card (removedCells rs))" for x rs
      by (rule step1_row_card)
    show "rowsWithRemovals rs \<subseteq> rowsWithRemovals (step1_row rnd sz boxDims x rs)" for x rs
      using step1_row_cases[of rnd sz boxDims x rs] by (auto simp: removeCell_def Let_def)
    show "distinct [0..<sz]" by simp
  qed
  then show ?thesis by (simp add: step1_def)
qed

lemma step2_bound:
  "card (removedCells (step2 rnd sz boxDims rs)) + card ({0..<sz} \<inter> colsWithRemovals rs)
     \<le> card (removedCells rs) + sz"
proof -
  have "card (removedCells (fold (step2_col rnd sz boxDims) [0..<sz] rs)) + card (set [0..<sz] \<inter> colsWithRemovals rs)
      \<le> card (removedCells rs) + length [0..<sz]"
  proof (rule cover_fold_bound)
    show "step2_col rnd sz boxDims x rs = rs" if "x \<in> colsWithRemovals rs" for x rs
      using that by (simp add: step2_col_def)
    show "card (removedCells (step2_col rnd sz boxDims x rs)) \<le> Suc (card (removedCells rs))" for x rs
      by (rule step2_col_card)
    show "colsWithRemovals rs \<subseteq> colsWithRemovals (step2_col rnd sz boxDims x rs)" for x rs
      using step2_col_cases[of rnd sz boxDims x rs] by (auto simp: removeCell_def Let_def)
    show "distinct [0..<sz]" by simp
  qed
  then show ?thesis by (simp add: step2_def)
qed

lemma step3_bound:
  "card (removedCells (step3 rnd sz boxDims rs))
     + card ({0..<boxesPerRowOf sz boxDims * boxesPerRowOf sz boxDims} \<inter> boxesWithRemovals rs)
     \<le> card (removedCells rs) + boxesPerRowOf sz boxDims * boxesPerRowOf sz boxDims"
proof -
  let ?n = "boxesPerRowOf sz boxDims * boxesPerRowOf sz boxDims"
  have "card (removedCells (fold (step3_box rnd sz boxDims) [0..<?n] rs)) + card (set [0..<?n] \<inter> boxesWithRemovals rs)
      \<le> card (removedCells rs) + length [0..<?n]"
  proof (rule cover_fold_bound)
    show "step3_box rnd sz boxDims x rs = rs" if "x \<in> boxesWithRemovals rs" for x rs
      using that by (simp add: step3_box_def)
    show "card (removedCells (step3_box rnd sz boxDims x rs)) \<le> Suc (card (removedCells rs))" for x rs
      by (rule step3_box_card)
    show "boxesWithRemovals rs \<subseteq> boxesWithRemovals (step3_box rnd sz boxDims x rs)" for x rs
      using step3_box_cases[of rnd sz boxDims x rs] by (auto simp: removeCell_def Let_def)
    show "distinct [0..<?n]" by simp
  qed
  then show ?thesis by (simp add: step3_def Let_def)
qed

text \<open>After step 1 every row has a removed cell.\<close>

lemma step1_rows_prefix:
  assumes t: "trackInv sz boxDims rs0" and e: "removedCells rs0 = {}" and k: "k \<le> sz" and pos: "0 < sz"
  shows "trackInv sz boxDims (fold (step1_row rnd sz boxDims) [0..<k] rs0) \<and>
         removedCells (fold (step1_row rnd sz boxDims) [0..<k] rs0) \<subseteq> {0..<k} \<times> {0..<sz} \<and>
         {0..<k} \<subseteq> rowsWithRemovals (fold (step1_row rnd sz boxDims) [0..<k] rs0)"
  using k
proof (induction k)
  case 0
  with t e show ?case by simp
next
  case (Suc k)
  let ?rs = "fold (step1_row rnd sz boxDims) [0..<k] rs0"
  from Suc have ih: "trackInv sz boxDims ?rs" "removedCells ?rs \<subseteq> {0..<k} \<times> {0..<sz}"
    "{0..<k} \<subseteq> rowsWithRemovals ?rs" by auto
  have f: "fold (step1_row rnd sz boxDims) [0..<Suc k] rs0 = step1_row rnd sz boxDims k ?rs"
    by simp
  from ih(1,2) have nk: "k \<notin> rowsWithRemovals ?rs" "\<not> (\<forall>c < sz. (k, c) \<in> removedCells ?rs)"
    using pos by (auto simp: trackInv_def)
  with step1_row_cases[of rnd sz boxDims k ?rs]
  obtain c where c: "c < sz" and nc: "(k, c) \<notin> removedCells ?rs"
    and st: "step1_row rnd sz boxDims k ?rs = removeCell sz boxDims k c (?rs\<lparr>draws := draws ?rs + 1\<rparr>)"
    by auto
  have "trackInv sz boxDims (removeCell sz boxDims k c (?rs\<lparr>draws := draws ?rs + 1\<rparr>))"
    using ih(1) by (intro trackInv_removeCell) simp
  moreover have "removedCells (removeCell sz boxDims k c (?rs\<lparr>draws := draws ?rs + 1\<rparr>))
      \<subseteq> {0..<Suc k} \<times> {0..<sz}"
    using ih(2) c by auto
  moreover have "{0..<Suc k} \<subseteq> rowsWithRemovals (removeCell sz boxDims k c (?rs\<lparr>draws := draws ?rs + 1\<rparr>))"
    using ih(3) nc by (auto simp: removeCell_def Let_def less_Suc_eq)
  ultimately show ?case by (simp only: f st) 
qed

lemma step1_rows_covered:
  assumes "trackInv sz boxDims rs0" and "removedCells rs0 = {}" and "0 < sz"
  shows "trackInv sz boxDims (step1 rnd sz boxDims rs0)"
    and "removedCells (step1 rnd sz boxDims rs0) \<subseteq> allCells sz"
    and "\<forall>r < sz. \<exists>c < sz. (r, c) \<in> removedCells (step1 rnd sz boxDims rs0)"
proof -
  note p = step1_rows_prefix[OF assms(1,2) le_refl assms(3), of rnd]
  show t: "trackInv sz boxDims (step1 rnd sz boxDims rs0)" using p by (simp add: step1_def)
  show s: "removedCells (step1 rnd sz boxDims rs0) \<subseteq> allCells sz"
    using p by (simp add: step1_def allCells_def)
  show "\<forall>r < sz. \<exists>c < sz. (r, c) \<in> removedCells (step1 rnd sz boxDims rs0)"
  proof (intro allI impI)
    fix r assume "r < sz"
    with p have "r \<in> rowsWithRemovals (step1 rnd sz boxDims rs0)" by (auto simp: step1_def)
    with t obtain c where c: "(r, c) \<in> removedCells (step1 rnd sz boxDims rs0)"
      by (auto simp: trackInv_def)
    with s have "(r, c) \<in> allCells sz" by blast
    then have "c < sz" by (simp add: allCells_def)
    with c show "\<exists>c < sz. (r, c) \<in> removedCells (step1 rnd sz boxDims rs0)"
      by blast
  qed
qed

lemma targetCellsToRemove_table:
  "targetCellsToRemove 4 Easy = 5" "targetCellsToRemove 4 Medium = 9"
  "targetCellsToRemove 4 Hard = 10" "targetCellsToRemove 4 ExtremelyHard = 11"
  "targetCellsToRemove 6 Easy = 12" "targetCellsToRemove 6 Medium = 21"
  "targetCellsToRemove 6 Hard = 23" "targetCellsToRemove 6 ExtremelyHard = 25"
  "targetCellsToRemove 9 Easy = 28" "targetCellsToRemove 9 Medium = 48"
  "targetCellsToRemove 9 Hard = 53" "targetCellsToRemove 9 ExtremelyHard = 58"
  by code_simp+

lemma trackInv_freshCopy: "trackInv sz boxDims (freshCopy sz boxDims grid st)"
  by (simp add: trackInv_def freshCopy_def)

lemma two_boxes:
  assumes bd: "getBoxDimensions sz = Inr boxDims" and c0: "c0 < sz" and c1: "c1 < sz"
  shows "getBoxIndex 0 c0 boxDims sz \<noteq> getBoxIndex (rows boxDims) c1 boxDims sz \<and>
         getBoxIndex 0 c0 boxDims sz < boxesPerRowOf sz boxDims * boxesPerRowOf sz boxDims \<and>
         getBoxIndex (rows boxDims) c1 boxDims sz < boxesPerRowOf sz boxDims * boxesPerRowOf sz boxDims \<and>
         rows boxDims < sz \<and> 0 < sz"
  using bd
proof (cases rule: boxDims_cases)
  case 1
  with c0 c1 have "c0 div 3 < 3" "c1 div 3 < 3" by auto
  with 1 show ?thesis by (simp add: getBoxIndex_def boxesPerRowOf_def Let_def)
next
  case 2
  with c0 c1 have "c0 div 3 < 2" "c1 div 3 < 2" by auto
  with 2 show ?thesis by (simp add: getBoxIndex_def boxesPerRowOf_def Let_def)
next
  case 3
  with c0 c1 have "c0 div 2 < 2" "c1 div 2 < 2" by auto
  with 3 show ?thesis by (simp add: getBoxIndex_def boxesPerRowOf_def Let_def)
qed

lemma sorted_prefix_count:
  assumes s: "sorted (map f xs)" and k: "k < length xs"
  shows "length (filter (\<lambda>y. f y < f (xs ! k)) xs) \<le> k"
proof -
  let ?P = "\<lambda>y. f y < f (xs ! k)"
  have "\<not> ?P y" if "y \<in> set (drop k xs)" for y
  proof -
    from that obtain i where i: "i < length (drop k xs)" "y = drop k xs ! i"
      by (auto simp: in_set_conv_nth)
    then have y: "y = xs ! (k + i)" and ki: "k + i < length xs" by auto
    from s ki have "map f xs ! k \<le> map f xs ! (k + i)"
      by (intro sorted_nth_mono) auto
    with k ki y show ?thesis by simp
  qed
  then have "filter ?P (drop k xs) = []" by (simp add: filter_empty_conv)
  moreover have "filter ?P xs = filter ?P (take k xs) @ filter ?P (drop k xs)"
    by (metis append_take_drop_id filter_append)
  ultimately have "length (filter ?P xs) = length (filter ?P (take k xs))" by simp
  also have "\<dots> \<le> length (take k xs)" by (rule length_filter_le)
  also have "\<dots> \<le> k" by simp
  finally show ?thesis .
qed

lemma length_filter_mset:
  "mset xs = mset ys \<Longrightarrow> length (filter P xs) = length (filter P ys)"
proof -
  assume "mset xs = mset ys"
  then have "mset (filter P xs) = mset (filter P ys)" by simp
  then show ?thesis by (rule mset_eq_length)
qed

text \<open>The entry that \<open>pickTop\<close> picks has fewer than three entries of smaller priority.\<close>

lemma pickTop_rank:
  assumes ne: "available \<noteq> []" and p: "pickTop rnd available rs = (x, rs')"
  shows "\<exists>q. (x, q) \<in> set available \<and> length (filter (\<lambda>y. snd y < q) available) < 3"
proof -
  let ?sorted = "sort_key snd available"
  let ?top = "take (min 3 (length ?sorted)) ?sorted"
  let ?k = "randomIndex rnd (draws rs) (length ?top)"
  have len: "length ?top > 0" using ne by (cases available) auto
  then have k: "?k < length ?top"
    unfolding randomIndex_def by (rule mod_less_divisor)
  then have k3: "?k < 3" and ks: "?k < length ?sorted" by auto
  have nth: "?top ! ?k = ?sorted ! ?k" using k by simp
  from p have "x = fst (?top ! ?k)"
    by (auto simp: pickTop_def Let_def)
  then have x: "x = fst (?sorted ! ?k)" by (simp only: nth)
  have "?sorted ! ?k \<in> set ?sorted" using ks by (rule nth_mem)
  then have mem: "(x, snd (?sorted ! ?k)) \<in> set available" by (simp add: x)
  have "length (filter (\<lambda>y. snd y < snd (?sorted ! ?k)) ?sorted) \<le> ?k"
    by (rule sorted_prefix_count[OF _ ks]) simp
  moreover have "length (filter (\<lambda>y. snd y < snd (?sorted ! ?k)) available)
      = length (filter (\<lambda>y. snd y < snd (?sorted ! ?k)) ?sorted)"
    by (rule length_filter_mset) simp
  ultimately have "length (filter (\<lambda>y. snd y < snd (?sorted ! ?k)) available) < 3"
    using k3 by simp
  with mem show ?thesis by blast
qed

lemma getOr0_update:
  "getOr0 (AList.update k v m) k' = (if k' = k then v else getOr0 m k')"
  by (simp add: getOr0_def update_conv')

lemma getOr0_fold_zero:
  "(\<forall>k. getOr0 m k = 0) \<Longrightarrow> getOr0 (fold (\<lambda>i m. AList.update i 0 m) xs m) k = 0"
  by (induction xs arbitrary: m) (simp_all add: getOr0_update)

lemma getOr0_Nil: "getOr0 [] k = 0"
  by (simp add: getOr0_def)

lemma untouched_freshCopy: "untouched sz (freshCopy sz boxDims grid st)"
  by (simp add: untouched_def freshCopy_def initRemovalState_def Let_def getOr0_fold_zero getOr0_Nil)

text \<open>
  After a first removal in row 0, at column \<open>c0\<close>, the cell of row 1 in the same column
  has priority 3.5 (one removal in its column, one in its box, one in its region), every
  other cell of row 1 at most 2.5.
\<close>

lemma priority_second_row:
  assumes bd: "getBoxDimensions sz = Inr boxDims" and u: "untouched sz rs0"
    and c0: "c0 < sz" and c: "c < sz"
  shows "c = c0 \<Longrightarrow> getCellPriority sz boxDims (removeCell sz boxDims 0 c0 (rs0\<lparr>draws := d\<rparr>)) 1 c = 7 / 2"
    and "c \<noteq> c0 \<Longrightarrow> getCellPriority sz boxDims (removeCell sz boxDims 0 c0 (rs0\<lparr>draws := d\<rparr>)) 1 c \<le> 5 / 2"
proof -
  let ?rs = "removeCell sz boxDims 0 c0 (rs0\<lparr>draws := d\<rparr>)"
  from bd have shape: "1 div rows boxDims = 0" "1 div ((sz + 2) div 3) = 0" "1 < sz"
    by (auto elim!: boxDims_cases)
  from u have rowc: "rowRemovalCounts ?rs ! 1 = 0"
    using shape(3) by (simp add: untouched_def removeCell_def Let_def)
  from u have colc: "colRemovalCounts ?rs ! c' = (if c' = c0 then 1 else 0)" if "c' < sz" for c'
    using that c0 by (simp add: untouched_def removeCell_def Let_def nth_list_update)
  from u have boxc: "getOr0 (boxRemovalCounts ?rs) k = (if k = getBoxIndex 0 c0 boxDims sz then 1 else 0)" for k
    by (simp add: untouched_def removeCell_def Let_def getOr0_update)
  from u have spc: "getOr0 (spatialRegionCounts ?rs) k = (if k = getSpatialRegion 0 c0 sz then 1 else 0)" for k
    by (simp add: untouched_def removeCell_def Let_def getOr0_update)
  have same: "getBoxIndex 1 c0 boxDims sz = getBoxIndex 0 c0 boxDims sz"
    "getSpatialRegion 1 c0 sz = getSpatialRegion 0 c0 sz"
    using shape by (simp_all add: getBoxIndex_def getSpatialRegion_def Let_def)
  have "getCellPriority sz boxDims ?rs 1 c0 = 7 / 2"
    unfolding getCellPriority_def Let_def same rowc boxc spc colc[OF c0]
    by simp
  then show "c = c0 \<Longrightarrow> getCellPriority sz boxDims ?rs 1 c = 7 / 2" by simp
  show "getCellPriority sz boxDims ?rs 1 c \<le> 5 / 2" if "c \<noteq> c0"
    unfolding getCellPriority_def Let_def rowc colc[OF c] boxc spc
    using that by simp
qed

text \<open>Step 1 removes the cells of rows 0 and 1 in two different columns.\<close>

lemma first_two_rows:
  assumes bd: "getBoxDimensions sz = Inr boxDims"
    and t: "trackInv sz boxDims rs0" and u: "untouched sz rs0"
  shows "\<exists>c0 c1. c0 < sz \<and> c1 < sz \<and> c0 \<noteq> c1 \<and>
           {(0, c0), (1, c1)} \<subseteq> removedCells (step1_row rnd sz boxDims 1 (step1_row rnd sz boxDims 0 rs0))"
proof -
  from bd have sz: "4 \<le> sz" by (auto elim!: boxDims_cases)
  from u have e: "removedCells rs0 = {}" by (simp add: untouched_def)
  with t have r0: "rowsWithRemovals rs0 = {}" by (simp add: trackInv_def)
  have "\<not> (\<forall>c < sz. (0, c) \<in> removedCells rs0)" using e sz by (auto intro: exI[of _ 0])
  with step1_row_cases[of rnd sz boxDims 0 rs0] r0
  obtain c0 where c0: "c0 < sz"
    and s0: "step1_row rnd sz boxDims 0 rs0 = removeCell sz boxDims 0 c0 (rs0\<lparr>draws := draws rs0 + 1\<rparr>)"
    by auto
  let ?rsA = "removeCell sz boxDims 0 c0 (rs0\<lparr>draws := draws rs0 + 1\<rparr>)"
  have remA: "removedCells ?rsA = {(0, c0)}" using e by simp
  have tA: "trackInv sz boxDims ?rsA" using t by (intro trackInv_removeCell) simp
  then have "rowsWithRemovals ?rsA = fst ` removedCells ?rsA" by (simp only: trackInv_def)
  then have rowsA: "1 \<notin> rowsWithRemovals ?rsA" unfolding remA by simp
  let ?prio = "getCellPriority sz boxDims ?rsA 1"
  let ?av = "map (\<lambda>col. (col, ?prio col)) (filter (\<lambda>col. (1, col) \<notin> removedCells ?rsA) [0..<sz])"
  define A where "A = map (\<lambda>col. (col, ?prio col)) [0..<sz]"
  have av: "?av = A" by (simp add: e A_def)
  have ne: "A \<noteq> []" unfolding A_def using sz by simp
  obtain x rs' where p: "pickTop rnd A ?rsA = (x, rs')" by (cases "pickTop rnd A ?rsA")
  have "step1_row rnd sz boxDims 1 ?rsA
      = (if 0 < length A then let (randomCol, rs') = pickTop rnd A ?rsA
                                in removeCell sz boxDims 1 randomCol rs'
         else ?rsA)"
    unfolding step1_row_def Let_def av using rowsA by (simp only: if_True not_False_eq_True simp_thms)
  then have s1: "step1_row rnd sz boxDims 1 ?rsA = removeCell sz boxDims 1 x rs'"
    using ne p by simp
  from pickTop_result[OF ne p] have rs': "rs' = ?rsA\<lparr>draws := draws ?rsA + 1\<rparr>" by simp
  from pickTop_rank[OF ne p] obtain q where q: "(x, q) \<in> set A"
    and cnt: "length (filter (\<lambda>y. snd y < q) A) < 3" by blast
  from q have x: "x < sz" and qx: "q = ?prio x" by (auto simp: A_def)
  have cnt': "length (filter (\<lambda>col. ?prio col < q) [0..<sz]) < 3"
    using cnt by (simp add: A_def filter_map comp_def)
  have "x \<noteq> c0"
  proof
    assume "x = c0"
    with qx priority_second_row(1)[OF bd u c0 c0, of "draws rs0 + 1"] have q72: "q = 7 / 2" by simp
    have "{0..<sz} - {c0} \<subseteq> set (filter (\<lambda>col. ?prio col < q) [0..<sz])"
    proof
      fix col assume "col \<in> {0..<sz} - {c0}"
      then have col: "col < sz" "col \<noteq> c0" by auto
      from priority_second_row(2)[OF bd u c0 col(1) col(2), of "draws rs0 + 1"] q72
      have "?prio col < q" by simp
      with col(1) show "col \<in> set (filter (\<lambda>col. ?prio col < q) [0..<sz])" by simp
    qed
    then have "card ({0..<sz} - {c0}) \<le> card (set (filter (\<lambda>col. ?prio col < q) [0..<sz]))"
      by (intro card_mono) auto
    also have "\<dots> \<le> length (filter (\<lambda>col. ?prio col < q) [0..<sz])" by (rule card_length)
    finally have "card ({0..<sz} - {c0}) < 3" using cnt' by simp
    moreover have "card ({0..<sz} - {c0}) = sz - 1" using c0 by simp
    ultimately show False using sz by simp
  qed
  moreover have "{(0, c0), (1, x)} \<subseteq> removedCells (removeCell sz boxDims 1 x rs')"
    by (simp add: rs' remA)
  ultimately show ?thesis using c0 x unfolding s0 s1 by blast
qed

lemma step1_two_columns:
  assumes bd: "getBoxDimensions sz = Inr boxDims"
    and t: "trackInv sz boxDims rs0" and u: "untouched sz rs0"
  shows "2 \<le> card ({0..<sz} \<inter> colsWithRemovals (step1 rnd sz boxDims rs0))"
proof -
  from bd have sz: "2 \<le> sz" by (auto elim!: boxDims_cases)
  let ?rsB = "step1_row rnd sz boxDims 1 (step1_row rnd sz boxDims 0 rs0)"
  from first_two_rows[OF bd t u, of rnd] obtain c0 c1 where c: "c0 < sz" "c1 < sz" "c0 \<noteq> c1"
    and rem: "{(0, c0), (1, c1)} \<subseteq> removedCells ?rsB" by blast
  have "[0..<sz] = 0 # 1 # [2..<sz]" using sz by (simp add: upt_conv_Cons numeral_2_eq_2)
  then have st: "step1 rnd sz boxDims rs0 = fold (step1_row rnd sz boxDims) [2..<sz] ?rsB"
    by (simp add: step1_def)
  have run: "removalRun sz boxDims ?rsB (step1 rnd sz boxDims rs0)"
    unfolding st by (rule removalRun_fold) (simp add: step1_row_run)
  have tr: "trackInv sz boxDims (step1 rnd sz boxDims rs0)"
    using step1_rows_covered(1)[OF t _ _, of rnd] u sz by (simp add: untouched_def)
  from removalRun_mono[OF run] rem
  have "{(0, c0), (1, c1)} \<subseteq> removedCells (step1 rnd sz boxDims rs0)" by blast
  with tr have "c0 \<in> colsWithRemovals (step1 rnd sz boxDims rs0)" "c1 \<in> colsWithRemovals (step1 rnd sz boxDims rs0)"
    by (force simp: trackInv_def)+
  with c have "{c0, c1} \<subseteq> {0..<sz} \<inter> colsWithRemovals (step1 rnd sz boxDims rs0)" by auto
  then have "card {c0, c1} \<le> card ({0..<sz} \<inter> colsWithRemovals (step1 rnd sz boxDims rs0))"
    by (intro card_mono) auto
  with c(3) show ?thesis by simp
qed

lemma coverage_bound:
  assumes bd: "getBoxDimensions sz = Inr boxDims"
    and t: "trackInv sz boxDims rs0" and u: "untouched sz rs0"
  shows "card (removedCells (coverage rnd sz boxDims rs0)) + 4
           \<le> 2 * sz + boxesPerRowOf sz boxDims * boxesPerRowOf sz boxDims"
proof -
  from u have e: "removedCells rs0 = {}" by (simp add: untouched_def)
  let ?rs1 = "step1 rnd sz boxDims rs0"
  let ?rs2 = "step2 rnd sz boxDims ?rs1"
  let ?n = "boxesPerRowOf sz boxDims * boxesPerRowOf sz boxDims"
  from two_boxes[OF bd] bd have pos: "0 < sz" and rho: "rows boxDims < sz"
    by (auto elim!: boxDims_cases)
  note s1 = step1_rows_covered[OF t e pos, of rnd]
  from s1(3) pos obtain c0 where c0: "c0 < sz" "(0, c0) \<in> removedCells ?rs1" by auto
  from s1(3) rho obtain c1 where c1: "c1 < sz" "(rows boxDims, c1) \<in> removedCells ?rs1" by auto
  have b1: "card (removedCells ?rs1) \<le> sz"
    using step1_bound[of rnd sz boxDims rs0] e by simp
  from step2_bound[of rnd sz boxDims ?rs1] b1 step1_two_columns[OF bd t u, of rnd]
  have b2: "card (removedCells ?rs2) + 2 \<le> 2 * sz" by simp
  let ?b0 = "getBoxIndex 0 c0 boxDims sz"
  let ?b1 = "getBoxIndex (rows boxDims) c1 boxDims sz"
  note tb = two_boxes[OF bd c0(1) c1(1)]
  have in1: "?b0 \<in> boxesWithRemovals ?rs1" "?b1 \<in> boxesWithRemovals ?rs1"
    using s1(1) c0 c1 by (force simp: trackInv_def)+
  have "boxesWithRemovals ?rs1 \<subseteq> boxesWithRemovals ?rs2"
    using removalRun_mono[OF step2_run[of sz boxDims ?rs1 rnd]] by simp
  with in1 tb have "{?b0, ?b1} \<subseteq> {0..<?n} \<inter> boxesWithRemovals ?rs2" by auto
  then have "card {?b0, ?b1} \<le> card ({0..<?n} \<inter> boxesWithRemovals ?rs2)"
    by (intro card_mono) auto
  moreover have "card {?b0, ?b1} = 2" using tb by simp
  ultimately have "2 \<le> card ({0..<?n} \<inter> boxesWithRemovals ?rs2)" by simp
  with step3_bound[of rnd sz boxDims ?rs2] b2 show ?thesis
    by (simp add: coverage_def)
qed

lemma coverage_within_target:
  assumes bd: "getBoxDimensions sz = Inr boxDims"
    and t: "trackInv sz boxDims rs0" and u: "untouched sz rs0"
    and ne: "(sz, difficulty) \<noteq> (4, Easy)"
  shows "card (removedCells (coverage rnd sz boxDims rs0)) \<le> targetCellsToRemove sz difficulty"
  using bd
proof (cases rule: boxDims_cases)
  case 1
  with coverage_bound[OF bd t u, of rnd] have "card (removedCells (coverage rnd sz boxDims rs0)) \<le> 23"
    by (simp add: boxesPerRowOf_def)
  with 1 show ?thesis by (cases difficulty) (simp_all add: targetCellsToRemove_table)
next
  case 2
  with coverage_bound[OF bd t u, of rnd] have "card (removedCells (coverage rnd sz boxDims rs0)) \<le> 12"
    by (simp add: boxesPerRowOf_def)
  with 2 show ?thesis by (cases difficulty) (simp_all add: targetCellsToRemove_table)
next
  case 3
  with coverage_bound[OF bd t u, of rnd] have "card (removedCells (coverage rnd sz boxDims rs0)) \<le> 8"
    by (simp add: boxesPerRowOf_def)
  with 3 ne show ?thesis by (cases difficulty) (simp_all add: targetCellsToRemove_table)
qed

lemma wellFormed_state4: "wellFormed 4 [0, 1, 2, 3] state4"
  by (simp add: wellFormed_def state4_def solution4_def)

lemma wellFormed_state6: "wellFormed 6 [0, 1, 2, 3, 4, 5] state6"
  by (simp add: wellFormed_def state6_def solution6_def)

lemma boxDims6: "getBoxDimensions 6 = Inr \<lparr>rows = 2, cols = 3\<rparr>"
  by (simp add: getBoxDimensions_def)

lemma boxDims4: "getBoxDimensions 4 = Inr \<lparr>rows = 2, cols = 2\<rparr>"
  by (simp add: getBoxDimensions_def)

lemma createPuzzle_result:
  fixes rnd :: "nat \<Rightarrow> nat" and difficulty :: Difficulty
  assumes bd: "getBoxDimensions sz = Inr boxDims" and wf: "wellFormed sz grid st"
  defines "rs \<equiv> runSteps rnd sz boxDims (targetCellsToRemove sz difficulty) (freshCopy sz boxDims grid st)"
  shows "createPuzzle rnd grid sz difficulty st
           = (Inr (puzzle rs), (snd (copyRows grid st))\<lparr>heap := store rs, rpos := draws rs\<rparr>)"
    and "removalRun sz boxDims (freshCopy sz boxDims grid st) rs"
proof -
  note f = freshCopy_fields[OF wf, of boxDims]
  show run: "removalRun sz boxDims (freshCopy sz boxDims grid st) rs"
    unfolding rs_def by (rule runSteps_run(2)[OF bd f(3)])
  have "puzzle rs = puzzle (freshCopy sz boxDims grid st)"
    using run_puzzle_cells(1)[OF wf run] f(1) by simp
  then show "createPuzzle rnd grid sz difficulty st
           = (Inr (puzzle rs), (snd (copyRows grid st))\<lparr>heap := store rs, rpos := draws rs\<rparr>)"
    unfolding rs_def by (simp add: createPuzzle_unfold[OF bd])
qed

text \<open>
  C4. On a supported size and a well-formed grid, \<open>createPuzzle\<close> returns a puzzle of the
  same shape, and every cell of it is 0 or the cell of the solution. The same holds in
  every state of a removal run from the fresh copy (every step of \<open>createPuzzle\<close> is such
  a run, see \<open>runSteps_run\<close>): a cell is 0 if it has been removed, and the solution's
  otherwise.
\<close>

theorem puzzle_cells_contained:
  assumes "getBoxDimensions sz = Inr boxDims" and "wellFormed sz grid st"
  shows "\<exists>p st'. createPuzzle rnd grid sz difficulty st = (Inr p, st') \<and> length p = sz \<and>
           (\<forall>r < sz. \<forall>c < sz. gridOf (heap st') p ! r ! c = 0 \<or>
                                gridOf (heap st') p ! r ! c = gridOf (heap st) grid ! r ! c) \<and>
           (\<forall>rs. removalRun sz boxDims (freshCopy sz boxDims grid st) rs \<longrightarrow>
              (\<forall>r < sz. \<forall>c < sz. gridOf (store rs) (puzzle rs) ! r ! c
                 = (if (r, c) \<in> removedCells rs then 0 else gridOf (heap st) grid ! r ! c)))"
proof -
  define rs where "rs = runSteps rnd sz boxDims (targetCellsToRemove sz difficulty) (freshCopy sz boxDims grid st)"
  note res = createPuzzle_result[OF assms, of rnd difficulty, folded rs_def]
  note cells = run_puzzle_cells[OF assms(2) res(2)]
  have "length (puzzle rs) = sz" using cells(1) by simp
  moreover have "\<forall>r < sz. \<forall>c < sz. gridOf (store rs) (puzzle rs) ! r ! c = 0 \<or>
      gridOf (store rs) (puzzle rs) ! r ! c = gridOf (heap st) grid ! r ! c"
    using cells(5) by auto
  moreover have "\<forall>rs. removalRun sz boxDims (freshCopy sz boxDims grid st) rs \<longrightarrow>
      (\<forall>r < sz. \<forall>c < sz. gridOf (store rs) (puzzle rs) ! r ! c
         = (if (r, c) \<in> removedCells rs then 0 else gridOf (heap st) grid ! r ! c))"
    using run_puzzle_cells(5)[OF assms(2)] by blast
  ultimately show ?thesis using res(1) by simp
qed

theorem puzzle_cells_contained_witness:
  "\<exists>p st'. createPuzzle (fixedDraws [0, 0, 0, 2, 2, 0]) [0, 1, 2, 3] 4 Easy state4 = (Inr p, st') \<and>
     length p = 4 \<and>
     (gridOf (heap st') p ! 1 ! 2 = 0 \<or> gridOf (heap st') p ! 1 ! 2 = gridOf (heap state4) [0, 1, 2, 3] ! 1 ! 2)"
  using puzzle_cells_contained[OF boxDims4 wellFormed_state4, of "fixedDraws [0, 0, 0, 2, 2, 0]" Easy]
  by fastforce

text \<open>
  C5. \<open>createPuzzle\<close> leaves every array that existed before the call as it was, so the
  solution grid reads the same before and after; the rows of the puzzle are new arrays,
  distinct from each other and from every row of the solution, and the digit cache is
  untouched.
\<close>

theorem createPuzzle_preserves_input:
  assumes "getBoxDimensions sz = Inr boxDims" and "wellFormed sz grid st"
  shows "\<exists>p st'. createPuzzle rnd grid sz difficulty st = (Inr p, st') \<and>
           (\<forall>a < length (heap st). heap st' ! a = heap st ! a) \<and>
           length (heap st) \<le> length (heap st') \<and>
           gridOf (heap st') grid = gridOf (heap st) grid \<and>
           distinct p \<and> set p \<inter> set grid = {} \<and> (\<forall>a \<in> set p. length (heap st) \<le> a) \<and>
           digitsCache st' = digitsCache st"
proof -
  define rs where "rs = runSteps rnd sz boxDims (targetCellsToRemove sz difficulty) (freshCopy sz boxDims grid st)"
  note res = createPuzzle_result[OF assms, of rnd difficulty, folded rs_def]
  note cells = run_puzzle_cells[OF assms(2) res(2)]
  from assms(2) have valid: "\<forall>a \<in> set grid. a < length (heap st)"
    by (simp add: wellFormed_def)
  have "gridOf (store rs) grid = gridOf (heap st) grid"
    using valid cells(3) by (simp add: gridOf_def)
  moreover have "distinct (puzzle rs)" "\<forall>a \<in> set (puzzle rs). length (heap st) \<le> a"
    using cells(1) by simp_all
  moreover have "set (puzzle rs) \<inter> set grid = {}"
    using cells(1) valid by auto
  moreover have "digitsCache (snd (copyRows grid st)) = digitsCache st"
    by (simp add: copyRows_result[OF valid])
  ultimately show ?thesis using res(1) cells(2,3) by simp
qed

theorem createPuzzle_preserves_input_witness:
  "\<exists>p st'. createPuzzle (fixedDraws [0, 0, 0, 2, 2, 0]) [0, 1, 2, 3] 4 Easy state4 = (Inr p, st') \<and>
     gridOf (heap st') [0, 1, 2, 3] = solution4 \<and> distinct p \<and> set p \<inter> {0, 1, 2, 3} = {}"
  using createPuzzle_preserves_input[OF boxDims4 wellFormed_state4, of "fixedDraws [0, 0, 0, 2, 2, 0]" Easy]
  by (auto simp: gridOf_def state4_def solution4_def)

lemma zeroCells_run:
  assumes wf: "wellFormed sz grid st"
    and complete: "\<forall>a \<in> set grid. 0 \<notin> set (heap st ! a)"
    and run: "removalRun sz boxDims (freshCopy sz boxDims grid st) rs"
  shows "zeroCells (gridOf (store rs) (puzzle rs)) = card (removedCells rs)"
proof -
  let ?g = "gridOf (store rs) (puzzle rs)"
  note cells = run_puzzle_cells[OF wf run]
  note f = freshCopy_fields[OF wf, of boxDims]
  have sub: "removedCells rs \<subseteq> allCells sz"
    using removalRun_removedCells[OF run] f(3) by simp
  have len: "length ?g = sz" using cells(1) by (simp add: gridOf_def)
  have nz: "gridOf (heap st) grid ! r ! c \<noteq> 0" if "r < sz" "c < sz" for r c
  proof -
    from wf that have a: "grid ! r \<in> set grid" and l: "length (heap st ! (grid ! r)) = sz"
      by (auto simp: wellFormed_def)
    from wf that have "gridOf (heap st) grid ! r = heap st ! (grid ! r)"
      by (simp add: gridOf_def wellFormed_def)
    moreover have "heap st ! (grid ! r) ! c \<in> set (heap st ! (grid ! r))"
      using that l by simp
    ultimately show ?thesis using complete a by metis
  qed
  have "{(r, c). (r, c) \<in> allCells sz \<and> ?g ! r ! c = 0} = removedCells rs"
  proof (intro set_eqI iffI)
    fix x assume "x \<in> {(r, c). (r, c) \<in> allCells sz \<and> ?g ! r ! c = 0}"
    then obtain r c where x: "x = (r, c)" "r < sz" "c < sz" "?g ! r ! c = 0"
      by (auto simp: allCells_def)
    with cells(5) nz[of r c] show "x \<in> removedCells rs" by (cases "(r, c) \<in> removedCells rs") auto
  next
    fix x assume x: "x \<in> removedCells rs"
    obtain r c where rc: "x = (r, c)" by (cases x)
    with x sub have "r < sz" "c < sz" by (auto simp: allCells_def)
    with cells(5) x rc show "x \<in> {(r, c). (r, c) \<in> allCells sz \<and> ?g ! r ! c = 0}"
      by (auto simp: allCells_def)
  qed
  with zeroCells_card[OF len cells(4)] show ?thesis by simp
qed

text \<open>
  C3 (as amended). On a supported size and a complete well-formed solution, the number of
  empty cells of the puzzle is the larger of the target \<open>floor(N * N * (1 - fill))\<close> and
  of the number of cells that the three coverage steps have removed. So it is never below
  the target, and it is the target exactly for every size and difficulty but 4 with Easy,
  where the coverage steps alone may pass the target. At size 6 they remove at most twelve
  cells, the target of Easy: rows 0 and 1 are emptied in two different columns, so that
  step 2 removes at most four cells, and step 3 at most two.
\<close>

theorem zero_cells_count:
  assumes "getBoxDimensions sz = Inr boxDims" and "wellFormed sz grid st"
    and "\<forall>a \<in> set grid. 0 \<notin> set (heap st ! a)"
  shows "\<exists>p st'. createPuzzle rnd grid sz difficulty st = (Inr p, st') \<and>
           zeroCells (gridOf (heap st') p)
             = max (targetCellsToRemove sz difficulty)
                   (card (removedCells (coverage rnd sz boxDims (freshCopy sz boxDims grid st)))) \<and>
           targetCellsToRemove sz difficulty \<le> zeroCells (gridOf (heap st') p) \<and>
           ((sz, difficulty) \<noteq> (4, Easy)
              \<longrightarrow> zeroCells (gridOf (heap st') p) = targetCellsToRemove sz difficulty)"
proof -
  define rs where "rs = runSteps rnd sz boxDims (targetCellsToRemove sz difficulty) (freshCopy sz boxDims grid st)"
  note res = createPuzzle_result[OF assms(1,2), of rnd difficulty, folded rs_def]
  note f = freshCopy_fields[OF assms(2), of boxDims]
  have z: "zeroCells (gridOf (store rs) (puzzle rs)) = card (removedCells rs)"
    by (rule zeroCells_run[OF assms(2,3) res(2)])
  have c: "card (removedCells rs)
      = max (targetCellsToRemove sz difficulty)
            (card (removedCells (coverage rnd sz boxDims (freshCopy sz boxDims grid st))))"
    unfolding rs_def by (rule runSteps_run(3)[OF assms(1) f(3)])
  have "card (removedCells (coverage rnd sz boxDims (freshCopy sz boxDims grid st)))
      \<le> targetCellsToRemove sz difficulty"
    if "(sz, difficulty) \<noteq> (4, Easy)"
    by (rule coverage_within_target[OF assms(1) trackInv_freshCopy untouched_freshCopy that])
  with z c res(1) show ?thesis by auto
qed

theorem zero_cells_count_witness:
  "(\<exists>p st'. createPuzzle (fixedDraws [0, 0, 0, 2, 2, 0]) [0, 1, 2, 3] 4 Medium state4 = (Inr p, st') \<and>
      zeroCells (gridOf (heap st') p) = 9) \<and>
   (\<exists>p st'. createPuzzle (fixedDraws [2, 1, 0, 2, 1, 0]) [0, 1, 2, 3, 4, 5] 6 Easy state6 = (Inr p, st') \<and>
      zeroCells (gridOf (heap st') p) = 12)"
proof -
  have "\<forall>a \<in> set [0, 1, 2, 3]. 0 \<notin> set (heap state4 ! a)"
    by (simp add: state4_def solution4_def)
  from zero_cells_count[OF boxDims4 wellFormed_state4 this, of "fixedDraws [0, 0, 0, 2, 2, 0]" Medium]
  have a: "\<exists>p st'. createPuzzle (fixedDraws [0, 0, 0, 2, 2, 0]) [0, 1, 2, 3] 4 Medium state4 = (Inr p, st') \<and>
      zeroCells (gridOf (heap st') p) = 9"
    by (auto simp: targetCellsToRemove_table)
  have "\<forall>a \<in> set [0, 1, 2, 3, 4, 5]. 0 \<notin> set (heap state6 ! a)"
    by (simp add: state6_def solution6_def)
  from zero_cells_count[OF boxDims6 wellFormed_state6 this, of "fixedDraws [2, 1, 0, 2, 1, 0]" Easy]
  have b: "\<exists>p st'. createPuzzle (fixedDraws [2, 1, 0, 2, 1, 0]) [0, 1, 2, 3, 4, 5] 6 Easy state6 = (Inr p, st') \<and>
      zeroCells (gridOf (heap st') p) = 12"
    by (auto simp: targetCellsToRemove_table)
  from a b show ?thesis by blast
qed

text \<open>
  The claim C3 as stated fails for size 4 with Easy: with the draws 0, 0, 0, 2, 2, 0 the
  coverage steps empty six cells of the complete grid \<open>solution4\<close>, one more than the
  target of five.
\<close>

theorem zero_cells_count_counterexample:
  "fst (createPuzzle (fixedDraws [0, 0, 0, 2, 2, 0]) [0, 1, 2, 3] 4 Easy state4) = Inr [4, 5, 6, 7] \<and>
   gridOf (heap (snd (createPuzzle (fixedDraws [0, 0, 0, 2, 2, 0]) [0, 1, 2, 3] 4 Easy state4))) [4, 5, 6, 7]
     = [[0, 2, 3, 0], [3, 4, 0, 2], [2, 0, 0, 3], [0, 3, 2, 1]] \<and>
   zeroCells (gridOf (heap (snd (createPuzzle (fixedDraws [0, 0, 0, 2, 2, 0]) [0, 1, 2, 3] 4 Easy state4)))
     [4, 5, 6, 7]) = 6 \<and>
   targetCellsToRemove 4 Easy = 5"
  by code_simp

section \<open>The store and the digit cache\<close>

lemma frame_refl [simp]: "frame st st"
  by (simp add: frame_def)

lemma frame_trans: "frame a b \<Longrightarrow> frame b c \<Longrightarrow> frame a c"
  by (auto simp: frame_def)

lemma frame_cacheOK: "frame st st' \<Longrightarrow> cacheOK st \<Longrightarrow> cacheOK st'"
  by (fastforce simp: frame_def cacheOK_def)

lemma frame_alloc: "alloc xs st = (a, st') \<Longrightarrow> frame st st' \<and> a = length (heap st) \<and> heap st' = heap st @ [xs]"
  by (auto simp: alloc_def frame_def nth_append)

lemma mset_swap_update:
  assumes "i < length xs" and "j < length xs"
  shows "mset (xs[i := xs ! j, j := xs ! i]) = mset xs"
  using assms by (metis mset_swap)

lemma shuffleLoop_result:
  assumes "heap st = h @ [ys]" and "i = 0 \<or> i < length ys"
  shows "\<exists>ys'. heap (shuffleLoop rnd (length h) i st) = h @ [ys'] \<and> mset ys' = mset ys \<and>
               digitsCache (shuffleLoop rnd (length h) i st) = digitsCache st \<and>
               rpos (shuffleLoop rnd (length h) i st) = rpos st + i"
  using assms
proof (induction i arbitrary: st ys)
  case 0
  then show ?case by simp
next
  case (Suc i)
  let ?j = "randomIndex rnd (rpos st) (Suc i + 1)"
  let ?ys1 = "ys[Suc i := ys ! ?j, ?j := ys ! Suc i]"
  let ?st1 = "st\<lparr>heap := (heap st)[length h := ?ys1], rpos := rpos st + 1\<rparr>"
  from Suc.prems have i: "Suc i < length ys" by simp
  have "?j < Suc i + 1" unfolding randomIndex_def by (rule mod_less_divisor) simp
  with i have j: "?j < length ys" by simp
  have h1: "heap ?st1 = h @ [?ys1]" using Suc.prems(1) by simp
  have m1: "mset ?ys1 = mset ys" by (rule mset_swap_update[OF i j])
  have "i = 0 \<or> i < length ?ys1" using i by simp
  from Suc.IH[OF h1 this] obtain ys' where
    r: "heap (shuffleLoop rnd (length h) i ?st1) = h @ [ys']" "mset ys' = mset ?ys1"
       "digitsCache (shuffleLoop rnd (length h) i ?st1) = digitsCache ?st1"
       "rpos (shuffleLoop rnd (length h) i ?st1) = rpos ?st1 + i"
    by blast
  have step: "shuffleLoop rnd (length h) (Suc i) st = shuffleLoop rnd (length h) i ?st1"
    using Suc.prems(1) by (simp add: Let_def)
  show ?case unfolding step using r m1 by auto
qed

lemma shuffleArray_result:
  assumes "shuffleArray rnd array st = (arr, st')"
  shows "arr = length (heap st) \<and> frame st st' \<and>
         (\<exists>ys. heap st' = heap st @ [ys] \<and> mset ys = mset (heap st ! array))"
proof -
  let ?xs = "heap st ! array"
  let ?st1 = "st\<lparr>heap := heap st @ [?xs]\<rparr>"
  have res: "arr = length (heap st)" "st' = shuffleLoop rnd (length (heap st)) (length ?xs - 1) ?st1"
    using assms by (auto simp: shuffleArray_def alloc_def)
  have "length ?xs - 1 = 0 \<or> length ?xs - 1 < length ?xs" by (cases ?xs) auto
  from shuffleLoop_result[of ?st1 "heap st" ?xs "length ?xs - 1" rnd, OF _ this] res(2)
  obtain ys where ys: "heap st' = heap st @ [ys]" "mset ys = mset ?xs" "digitsCache st' = digitsCache st"
    by auto
  then have "frame st st'" by (simp add: frame_def nth_append)
  with res(1) ys show ?thesis by blast
qed

lemma getDigits_result:
  assumes ok: "cacheOK st" and g: "getDigits sz st = (digits, st')"
  shows "cacheOK st' \<and> length (heap st) \<le> length (heap st') \<and>
         (\<forall>a < length (heap st). heap st' ! a = heap st ! a) \<and>
         digitsCache st' sz = Some digits \<and>
         digits < length (heap st') \<and> heap st' ! digits = digitsOf sz"
proof (cases "digitsCache st sz")
  case (Some a)
  with g have "digits = a" "st' = st" by (simp_all add: getDigits_def)
  with ok Some show ?thesis by (simp add: cacheOK_def)
next
  case None
  from None g have d: "digits = length (heap st)"
    and st': "st' = st\<lparr>heap := heap st @ [digitsOf sz], digitsCache := (digitsCache st)(sz \<mapsto> length (heap st))\<rparr>"
    by (auto simp: getDigits_def alloc_def digitsOf_def)
  have "cacheOK st'"
    unfolding cacheOK_def
  proof (intro allI impI)
    fix n a assume c: "digitsCache st' n = Some a"
    show "a < length (heap st') \<and> heap st' ! a = digitsOf n"
    proof (cases "n = sz")
      case True
      with c st' show ?thesis by (auto simp: nth_append)
    next
      case False
      with c st' have "digitsCache st n = Some a" by simp
      with ok have "a < length (heap st)" "heap st ! a = digitsOf n" by (auto simp: cacheOK_def)
      with st' show ?thesis by (simp add: nth_append)
    qed
  qed
  with d st' show ?thesis by (simp add: nth_append)
qed

lemma digitsOf_props:
  "length (digitsOf n) = n" "distinct (digitsOf n)" "set (digitsOf n) = {1..n}"
proof -
  show "length (digitsOf n) = n" by (simp add: digitsOf_def)
  show "distinct (digitsOf n)" by (simp add: digitsOf_def distinct_map inj_on_def)
  have "set (digitsOf n) = Suc ` {0..<n}" by (simp add: digitsOf_def)
  also have "\<dots> = {1..n}" by (simp add: image_Suc_atLeastLessThan atLeastLessThanSuc_atLeastAtMost)
  finally show "set (digitsOf n) = {1..n}" .
qed

section \<open>The choice of the next cell\<close>

lemma getCandidates_result:
  assumes "getCandidates g r c sz boxDims digits st = (cand, st')"
  shows "cand = length (heap st) \<and> frame st st' \<and>
         heap st' = heap st @ [legalCandidates g sz boxDims (heap st ! digits) (r, c)]"
  using assms frame_alloc[of "filter (\<lambda>num. isValid g r c num sz boxDims) (heap st ! digits)" st cand st']
  by (simp add: getCandidates_def legalCandidates_def)

lemma frame_read: "frame st st' \<Longrightarrow> a < length (heap st) \<Longrightarrow> heap st' ! a = heap st ! a"
  by (simp add: frame_def)

lemma frame_length: "frame st st' \<Longrightarrow> a < length (heap st) \<Longrightarrow> a < length (heap st')"
  by (simp add: frame_def)

lemma length_legal_le: "length (legalCandidates g sz boxDims ds x) \<le> length ds"
  by (simp add: legalCandidates_def)

lemma scanCells_spec:
  assumes "digits < length (heap st)" and "heap st ! digits = ds"
    and "bestSoFar g sz boxDims ds seen bestCell bestCount st"
    and "scanCells rnd g sz boxDims digits cells bestCell bestCount st = (result, st')"
  shows "frame st st' \<and> chosen g sz boxDims ds (seen @ emptyCells g cells) result st'"
  using assms
proof (induction cells arbitrary: seen bestCell bestCount st)
  case Nil
  then have res: "result = bestCell" "st' = st" by simp_all
  show ?case
  proof (cases bestCell)
    case None
    with Nil.prems(3) res show ?thesis by (simp add: bestSoFar_def chosen_def emptyCells_def)
  next
    case (Some b)
    obtain r c cand where b: "b = (r, c, cand)" by (cases b)
    from Nil.prems(3) Some b have "2 \<le> length (legalCandidates g sz boxDims ds (r, c))"
      by (simp add: bestSoFar_def)
    then have "\<not> length (legalCandidates g sz boxDims ds (r, c)) \<le> 1" by simp
    with Nil.prems(3) Some b res show ?thesis
      by (auto simp: bestSoFar_def chosen_def emptyCells_def)
  qed
next
  case (Cons x cells)
  obtain r c where x: "x = (r, c)" by (cases x)
  let ?L = "legalCandidates g sz boxDims ds"
  show ?case
  proof (cases "g ! r ! c \<noteq> 0")
    case True
    with Cons.prems(4) x have "scanCells rnd g sz boxDims digits cells bestCell bestCount st = (result, st')"
      by simp
    from Cons.IH[OF Cons.prems(1,2,3) this] True x show ?thesis
      by (simp add: emptyCells_def)
  next
    case False
    then have empty: "g ! r ! c = 0" by simp
    then have em: "emptyCells g (x # cells) = (r, c) # emptyCells g cells"
      using x by (simp add: emptyCells_def)
    obtain cand st1 where gc: "getCandidates g r c sz boxDims digits st = (cand, st1)"
      by (cases "getCandidates g r c sz boxDims digits st")
    from getCandidates_result[OF gc] Cons.prems(2)
    have cand: "cand = length (heap st)" and f1: "frame st st1"
      and h1: "heap st1 = heap st @ [?L (r, c)]" by auto
    have c1: "heap st1 ! cand = ?L (r, c)" using cand h1 by simp
    have d1: "digits < length (heap st1)" "heap st1 ! digits = ds"
      using f1 Cons.prems(1,2) by (auto simp: frame_def)
    from Cons.prems(3) have seen2: "\<forall>y \<in> set seen. 2 \<le> length (?L y)" and bc2: "2 \<le> bestCount"
      by (auto simp: bestSoFar_def)
    have "scanCells rnd g sz boxDims digits (x # cells) bestCell bestCount st =
       (if length (?L (r, c)) = 0 then (Some (r, c, cand), st1)
        else if length (?L (r, c)) < bestCount then
          (case shuffleArray rnd cand st1 of
             (shuffled, st2) \<Rightarrow>
               if length (?L (r, c)) = 1 then (Some (r, c, shuffled), st2)
               else scanCells rnd g sz boxDims digits cells (Some (r, c, shuffled))
                      (length (?L (r, c))) st2)
        else scanCells rnd g sz boxDims digits cells bestCell bestCount st1)"
      using x empty gc by (simp add: c1 split: prod.splits)
    with Cons.prems(4) have run: "(if length (?L (r, c)) = 0 then (Some (r, c, cand), st1)
        else if length (?L (r, c)) < bestCount then
          (case shuffleArray rnd cand st1 of
             (shuffled, st2) \<Rightarrow>
               if length (?L (r, c)) = 1 then (Some (r, c, shuffled), st2)
               else scanCells rnd g sz boxDims digits cells (Some (r, c, shuffled))
                      (length (?L (r, c))) st2)
        else scanCells rnd g sz boxDims digits cells bestCell bestCount st1) = (result, st')"
      by simp
    show ?thesis
    proof (cases "length (?L (r, c)) = 0")
      case True
      with run have res: "result = Some (r, c, cand)" "st' = st1"
        by simp_all
      have "chosen g sz boxDims ds (seen @ (r, c) # emptyCells g cells) (Some (r, c, cand)) st1"
        unfolding chosen_def using True seen2 c1 cand h1 by auto
      with res f1 em show ?thesis by simp
    next
      case nz: False
      show ?thesis
      proof (cases "length (?L (r, c)) < bestCount")
        case less: True
        obtain shuffled st2 where sh: "shuffleArray rnd cand st1 = (shuffled, st2)"
          by (cases "shuffleArray rnd cand st1")
        from shuffleArray_result[OF sh] c1 obtain ys where
          s2: "shuffled = length (heap st1)" "frame st1 st2" "heap st2 = heap st1 @ [ys]"
            "mset ys = mset (?L (r, c))" by auto
        have f2: "frame st st2" by (rule frame_trans[OF f1 s2(2)])
        have sh2: "shuffled < length (heap st2)" "mset (heap st2 ! shuffled) = mset (?L (r, c))"
          using s2 by simp_all
        show ?thesis
        proof (cases "length (?L (r, c)) = 1")
          case True
          with run nz less sh have res: "result = Some (r, c, shuffled)" "st' = st2"
            by simp_all
          have "chosen g sz boxDims ds (seen @ (r, c) # emptyCells g cells) (Some (r, c, shuffled)) st2"
            unfolding chosen_def using True seen2 sh2 by auto
          with res f2 em show ?thesis by simp
        next
          case False
          with nz have two: "2 \<le> length (?L (r, c))"
            by (cases "?L (r, c)") (auto simp: Suc_le_eq)
          from run nz less sh False
          have rec: "scanCells rnd g sz boxDims digits cells (Some (r, c, shuffled)) (length (?L (r, c))) st2
              = (result, st')" by simp
          have all_gt: "\<forall>y \<in> set seen. length (?L (r, c)) < length (?L y)"
          proof (cases bestCell)
            case None
            with Cons.prems(3) show ?thesis by (simp add: bestSoFar_def)
          next
            case (Some b)
            obtain br bcl bcand where b: "b = (br, bcl, bcand)" by (cases b)
            from Cons.prems(3) Some b obtain pre mid where
              "seen = pre @ (br, bcl) # mid" "length (?L (br, bcl)) = bestCount"
              "\<forall>y \<in> set pre. bestCount < length (?L y)" "\<forall>y \<in> set mid. bestCount \<le> length (?L y)"
              by (auto simp: bestSoFar_def)
            with less show ?thesis by auto
          qed
          have "\<exists>pre mid. seen @ [(r, c)] = pre @ (r, c) # mid \<and>
              (\<forall>y \<in> set pre. length (?L (r, c)) < length (?L y)) \<and>
              (\<forall>y \<in> set mid. length (?L (r, c)) \<le> length (?L y))"
            by (rule exI[of _ seen], rule exI[of _ "[]"]) (use all_gt in simp)
          then have "bestSoFar g sz boxDims ds (seen @ [(r, c)]) (Some (r, c, shuffled)) (length (?L (r, c))) st2"
            unfolding bestSoFar_def using two seen2 sh2 by auto
          moreover have d2: "digits < length (heap st2)" "heap st2 ! digits = ds"
            using s2(2) d1 by (auto simp: frame_def)
          ultimately have "frame st2 st' \<and>
              chosen g sz boxDims ds ((seen @ [(r, c)]) @ emptyCells g cells) result st'"
            using rec by (intro Cons.IH)
          with f2 em show ?thesis by (auto intro: frame_trans)
        qed
      next
        case ge: False
        with run nz
        have rec: "scanCells rnd g sz boxDims digits cells bestCell bestCount st1 = (result, st')"
          by simp
        have "bestSoFar g sz boxDims ds (seen @ [(r, c)]) bestCell bestCount st1"
        proof (cases bestCell)
          case None
          with Cons.prems(3) have "length ds < bestCount" by (simp add: bestSoFar_def)
          with ge length_legal_le[of g sz boxDims ds "(r, c)"] show ?thesis by simp
        next
          case (Some b)
          obtain br bcl bcand where b: "b = (br, bcl, bcand)" by (cases b)
          from Cons.prems(3) Some b obtain pre mid where
            p: "seen = pre @ (br, bcl) # mid" "length (?L (br, bcl)) = bestCount"
            "\<forall>y \<in> set pre. bestCount < length (?L y)" "\<forall>y \<in> set mid. bestCount \<le> length (?L y)"
            "bcand < length (heap st)" "mset (heap st ! bcand) = mset (?L (br, bcl))"
            by (auto simp: bestSoFar_def)
          have "seen @ [(r, c)] = pre @ (br, bcl) # (mid @ [(r, c)])" using p(1) by simp
          moreover have "\<forall>y \<in> set (mid @ [(r, c)]). bestCount \<le> length (?L y)"
            using p(4) ge by auto
          ultimately have ex: "\<exists>pre mid. seen @ [(r, c)] = pre @ (br, bcl) # mid \<and>
              (\<forall>y \<in> set pre. bestCount < length (?L y)) \<and>
              (\<forall>y \<in> set mid. bestCount \<le> length (?L y))"
            using p(3) by blast
          have "bcand < length (heap st1)" "heap st1 ! bcand = heap st ! bcand"
            using f1 p(5) by (auto simp: frame_def)
          moreover have "2 \<le> length (?L (r, c))" using ge bc2 by simp
          ultimately show ?thesis
            unfolding bestSoFar_def Some b using p(2,6) bc2 seen2 ex by simp

        qed
        from Cons.IH[OF d1 this rec] f1 em show ?thesis
          by (auto intro: frame_trans)
      qed
    qed
  qed
qed

lemma findBestCell_spec:
  assumes "digits < length (heap st)" and "heap st ! digits = ds"
    and "length ds < MAX_SAFE_INTEGER"
    and "findBestCell rnd g sz boxDims digits st = (result, st')"
  shows "frame st st' \<and>
         chosen g sz boxDims ds (emptyCells g (List.product [0..<sz] [0..<sz])) result st'"
proof -
  have "bestSoFar g sz boxDims ds [] None MAX_SAFE_INTEGER st"
    using assms(3) by (simp add: bestSoFar_def MAX_SAFE_INTEGER_def)
  from scanCells_spec[OF assms(1,2) this assms(4)[unfolded findBestCell_def]]
  show ?thesis by simp
qed




section \<open>Grids without a repeated digit\<close>

lemma peers_sym: "peers boxDims x y \<Longrightarrow> peers boxDims y x"
  by (auto simp: peers_def)

lemma div_eq_range:
  assumes "0 < (m::nat)"
  shows "i div m = k \<longleftrightarrow> k * m \<le> i \<and> i < k * m + m"
proof
  assume "i div m = k"
  then have k: "k = i div m" by simp
  have "i div m * m \<le> i" by simp
  moreover have "i < i div m * m + m"
    using assms by (metis add.commute div_mult_mod_eq mod_less_divisor nat_add_left_cancel_less)
  ultimately show "k * m \<le> i \<and> i < k * m + m" by (simp add: k)
next
  assume "k * m \<le> i \<and> i < k * m + m"
  then show "i div m = k"
    by (intro div_nat_eqI) (simp_all add: mult.commute)
qed

lemma box_in_grid:
  assumes bd: "getBoxDimensions sz = Inr boxDims" and r: "r < sz" and c: "c < sz"
  shows "0 < rows boxDims \<and> 0 < cols boxDims \<and>
         (r div rows boxDims) * rows boxDims + rows boxDims \<le> sz \<and>
         (c div cols boxDims) * cols boxDims + cols boxDims \<le> sz"
  using bd
proof (cases rule: boxDims_cases)
  case 1
  with r c have "r div 3 < 3" "c div 3 < 3" by auto
  with 1 show ?thesis by auto
next
  case 2
  with r c have "r div 2 < 3" "c div 3 < 2" by auto
  with 2 show ?thesis by auto
next
  case 3
  with r c have "r div 2 < 2" "c div 2 < 2" by auto
  with 3 show ?thesis by auto
qed

lemma isValid_iff:
  assumes bd: "getBoxDimensions sz = Inr boxDims" and r: "r < sz" and c: "c < sz"
  shows "isValid g r c num sz boxDims \<longleftrightarrow>
           (\<forall>y \<in> allCells sz. peers boxDims (r, c) y \<longrightarrow> g ! fst y ! snd y \<noteq> num)"
proof -
  note b = box_in_grid[OF bd r c]
  let ?br = "(r div rows boxDims) * rows boxDims"
  let ?bc = "(c div cols boxDims) * cols boxDims"
  have inbox: "(i div rows boxDims = r div rows boxDims \<and> j div cols boxDims = c div cols boxDims)
      \<longleftrightarrow> (?br \<le> i \<and> i < ?br + rows boxDims \<and> ?bc \<le> j \<and> j < ?bc + cols boxDims)" for i j
    using b div_eq_range[of "rows boxDims" i "r div rows boxDims"]
      div_eq_range[of "cols boxDims" j "c div cols boxDims"] by auto
  have iv: "isValid g r c num sz boxDims \<longleftrightarrow>
      (\<forall>j < sz. g ! r ! j \<noteq> num) \<and> (\<forall>i < sz. g ! i ! c \<noteq> num) \<and>
      (\<forall>i j. ?br \<le> i \<and> i < ?br + rows boxDims \<and> ?bc \<le> j \<and> j < ?bc + cols boxDims
         \<longrightarrow> g ! i ! j \<noteq> num)"
    unfolding isValid_def Let_def list_ex_iff
    by (simp add: Bex_def Ball_def)
  show ?thesis
  proof
    assume v: "isValid g r c num sz boxDims"
    show "\<forall>y \<in> allCells sz. peers boxDims (r, c) y \<longrightarrow> g ! fst y ! snd y \<noteq> num"
    proof (intro ballI impI)
      fix y assume y: "y \<in> allCells sz" and p: "peers boxDims (r, c) y"
      obtain i j where ij: "y = (i, j)" by (cases y)
      with y have "i < sz" "j < sz" by (auto simp: allCells_def)
      with p ij v iv inbox[of i j] show "g ! fst y ! snd y \<noteq> num"
        by (auto simp: peers_def)
    qed
  next
    assume a: "\<forall>y \<in> allCells sz. peers boxDims (r, c) y \<longrightarrow> g ! fst y ! snd y \<noteq> num"
    have "g ! r ! j \<noteq> num" if "j < sz" for j
      using a[rule_format, of "(r, j)"] that r by (simp add: allCells_def peers_def)
    moreover have "g ! i ! c \<noteq> num" if "i < sz" for i
      using a[rule_format, of "(i, c)"] that c by (simp add: allCells_def peers_def)
    moreover have "g ! i ! j \<noteq> num"
      if "?br \<le> i \<and> i < ?br + rows boxDims \<and> ?bc \<le> j \<and> j < ?bc + cols boxDims" for i j
    proof -
      from that b have "i < sz" "j < sz" by auto
      moreover from that inbox[of i j] have "peers boxDims (r, c) (i, j)"
        by (simp add: peers_def)
      ultimately show ?thesis using a[rule_format, of "(i, j)"] by (simp add: allCells_def)
    qed
    ultimately show "isValid g r c num sz boxDims" by (simp add: iv)
  qed
qed

lemma nth_setCell:
  assumes "wfGrid sz g" and "r < sz" and "c < sz" and "r' < sz" and "c' < sz"
  shows "setCell g r c v ! r' ! c' = (if r' = r \<and> c' = c then v else g ! r' ! c')"
  using assms by (auto simp: setCell_def wfGrid_def nth_list_update)

lemma wfGrid_setCell:
  assumes "wfGrid sz g"
  shows "wfGrid sz (setCell g r c v)"
proof -
  have "length (g[r := (g ! r)[c := v]] ! ra) = length (g ! ra)" if "ra < length g" for ra
    using that by (cases "ra = r") simp_all
  with assms show ?thesis by (simp add: setCell_def wfGrid_def)
qed

lemma noDup_setCell:
  assumes wf: "wfGrid sz g" and nd: "noDup sz boxDims g" and rc: "(r, c) \<in> allCells sz"
    and fresh: "\<forall>y \<in> allCells sz. peers boxDims (r, c) y \<and> y \<noteq> (r, c) \<longrightarrow> g ! fst y ! snd y \<noteq> v"
  shows "noDup sz boxDims (setCell g r c v)"
  unfolding noDup_def
proof (intro ballI impI)
  fix x y assume x: "x \<in> allCells sz" and y: "y \<in> allCells sz"
    and h: "x \<noteq> y \<and> peers boxDims x y \<and> setCell g r c v ! fst x ! snd x \<noteq> 0"
  from rc have r: "r < sz" and c: "c < sz" by (auto simp: allCells_def)
  from x y have xr: "fst x < sz" "snd x < sz" and yr: "fst y < sz" "snd y < sz"
    by (auto simp: allCells_def)
  have gx: "setCell g r c v ! fst x ! snd x = (if x = (r, c) then v else g ! fst x ! snd x)"
    using nth_setCell[OF wf r c xr] by (cases x) auto
  have gy: "setCell g r c v ! fst y ! snd y = (if y = (r, c) then v else g ! fst y ! snd y)"
    using nth_setCell[OF wf r c yr] by (cases y) auto
  show "setCell g r c v ! fst x ! snd x \<noteq> setCell g r c v ! fst y ! snd y"
  proof (cases "x = (r, c)")
    case True
    with h fresh y have "g ! fst y ! snd y \<noteq> v" by auto
    with True h gx gy show ?thesis by auto
  next
    case xn: False
    show ?thesis
    proof (cases "y = (r, c)")
      case True
      with h have "peers boxDims (r, c) x" by (auto intro: peers_sym)
      with fresh x xn have "g ! fst x ! snd x \<noteq> v" by auto
      with True xn gx gy show ?thesis by auto
    next
      case False
      with xn h gx gy nd x y show ?thesis by (auto simp: noDup_def)
    qed
  qed
qed

lemma noDup_place:
  assumes bd: "getBoxDimensions sz = Inr boxDims" and wf: "wfGrid sz g" and nd: "noDup sz boxDims g"
    and rc: "(r, c) \<in> allCells sz" and v: "isValid g r c v sz boxDims"
  shows "noDup sz boxDims (setCell g r c v)"
proof -
  from rc have "r < sz" "c < sz" by (auto simp: allCells_def)
  from isValid_iff[OF bd this] v
  have "\<forall>y \<in> allCells sz. peers boxDims (r, c) y \<and> y \<noteq> (r, c) \<longrightarrow> g ! fst y ! snd y \<noteq> v"
    by auto
  then show ?thesis by (rule noDup_setCell[OF wf nd rc])
qed

lemma noDup_clear:
  assumes wf: "wfGrid sz g" and nd: "noDup sz boxDims g" and rc: "(r, c) \<in> allCells sz"
  shows "noDup sz boxDims (setCell g r c 0)"
  unfolding noDup_def
proof (intro ballI impI)
  fix x y assume x: "x \<in> allCells sz" and y: "y \<in> allCells sz"
    and h: "x \<noteq> y \<and> peers boxDims x y \<and> setCell g r c 0 ! fst x ! snd x \<noteq> 0"
  from rc have r: "r < sz" and c: "c < sz" by (auto simp: allCells_def)
  from x y have xr: "fst x < sz" "snd x < sz" and yr: "fst y < sz" "snd y < sz"
    by (auto simp: allCells_def)
  have gx: "setCell g r c 0 ! fst x ! snd x = (if x = (r, c) then 0 else g ! fst x ! snd x)"
    using nth_setCell[OF wf r c xr] by (cases x) auto
  have gy: "setCell g r c 0 ! fst y ! snd y = (if y = (r, c) then 0 else g ! fst y ! snd y)"
    using nth_setCell[OF wf r c yr] by (cases y) auto
  from h gx have xn: "x \<noteq> (r, c)" "g ! fst x ! snd x \<noteq> 0" by (auto split: if_splits)
  show "setCell g r c 0 ! fst x ! snd x \<noteq> setCell g r c 0 ! fst y ! snd y"
  proof (cases "y = (r, c)")
    case True
    with xn gx gy show ?thesis by simp
  next
    case False
    with xn h gx gy nd x y show ?thesis by (auto simp: noDup_def)
  qed
qed

section \<open>The backtracking search\<close>

lemma digitsAt_frame: "frame st st' \<Longrightarrow> digitsAt sz digits st \<Longrightarrow> digitsAt sz digits st'"
  by (auto simp: digitsAt_def frame_def)

lemma setCell_restore:
  assumes "wfGrid sz g" and "r < sz" and "c < sz" and "g ! r ! c = 0"
  shows "setCell (setCell g r c v) r c 0 = g"
proof -
  from assms have "r < length g" "c < length (g ! r)" by (auto simp: wfGrid_def)
  then have "(g ! r)[c := 0] = g ! r" using assms(4) by (metis list_update_id)
  then show ?thesis using \<open>r < length g\<close> by (simp add: setCell_def)
qed

lemma gridInv_place:
  assumes bd: "getBoxDimensions sz = Inr boxDims" and inv: "gridInv sz boxDims g"
    and rc: "(r, c) \<in> allCells sz" and v: "isValid g r c v sz boxDims" and le: "v \<le> sz"
  shows "gridInv sz boxDims (setCell g r c v)"
proof -
  from inv have wf: "wfGrid sz g" and nd: "noDup sz boxDims g"
    and bound: "\<forall>x \<in> allCells sz. g ! fst x ! snd x \<le> sz" by (auto simp: gridInv_def)
  from rc have r: "r < sz" and c: "c < sz" by (auto simp: allCells_def)
  have "setCell g r c v ! fst x ! snd x \<le> sz" if "x \<in> allCells sz" for x
  proof -
    from that have "fst x < sz" "snd x < sz" by (auto simp: allCells_def)
    from nth_setCell[OF wf r c this] bound that le show ?thesis by auto
  qed
  with wfGrid_setCell[OF wf] noDup_place[OF bd wf nd rc v] show ?thesis
    by (simp add: gridInv_def)
qed

lemma tryCandidates_spec:
  assumes bd: "getBoxDimensions sz = Inr boxDims"
    and ih: "\<And>g1 st1 res. gridInv sz boxDims g1 \<Longrightarrow> digitsAt sz digits st1
               \<Longrightarrow> solve g1 st1 = Some res \<Longrightarrow> solved sz boxDims g1 st1 res"
    and inv: "gridInv sz boxDims g" and rc: "(r, c) \<in> allCells sz" and empty: "g ! r ! c = 0"
    and nums: "\<forall>num \<in> set nums. isValid g r c num sz boxDims \<and> num \<le> sz"
    and dg: "digitsAt sz digits st"
    and run: "tryCandidates solve r c nums g st = Some res"
  shows "solved sz boxDims g st res"
  using nums dg run
proof (induction nums arbitrary: st)
  case Nil
  with inv show ?case by (auto simp: solved_def)
next
  case (Cons num nums)
  from rc have r: "r < sz" and c: "c < sz" by (auto simp: allCells_def)
  from inv have wf: "wfGrid sz g" by (simp add: gridInv_def)
  from Cons.prems(1) have v: "isValid g r c num sz boxDims" "num \<le> sz" by auto
  have inv1: "gridInv sz boxDims (setCell g r c num)"
    by (rule gridInv_place[OF bd inv rc v])
  from Cons.prems(3) obtain ok1 g1 st1 where s1: "solve (setCell g r c num) st = Some (ok1, g1, st1)"
    by (cases "solve (setCell g r c num) st") auto
  from ih[OF inv1 Cons.prems(2) s1]
  have f1: "frame st st1" and i1: "gridInv sz boxDims g1"
    and full: "ok1 \<longrightarrow> emptyCells g1 (List.product [0..<sz] [0..<sz]) = []"
    and restored: "\<not> ok1 \<longrightarrow> g1 = setCell g r c num"
    by (auto simp: solved_def)
  show ?case
  proof (cases ok1)
    case True
    with Cons.prems(3) s1 have "res = (True, g1, st1)" by simp
    with f1 i1 full True show ?thesis by (simp add: solved_def)
  next
    case False
    with restored have "setCell g1 r c 0 = g" by (simp add: setCell_restore[OF wf r c empty])
    with Cons.prems(3) s1 False have rest: "tryCandidates solve r c nums g st1 = Some res" by simp
    from Cons.prems(1) have "\<forall>num \<in> set nums. isValid g r c num sz boxDims \<and> num \<le> sz" by simp
    from Cons.IH[OF this digitsAt_frame[OF f1 Cons.prems(2)] rest] f1 show ?thesis
      by (auto simp: solved_def intro: frame_trans)
  qed
qed

lemma MAX_SAFE_INTEGER_big: "sz \<le> 9 \<Longrightarrow> length (digitsOf sz) < MAX_SAFE_INTEGER"
  by (simp add: digitsOf_props MAX_SAFE_INTEGER_def)

lemma supported_le9: "getBoxDimensions sz = Inr boxDims \<Longrightarrow> sz \<le> 9"
  by (auto elim!: boxDims_cases)

lemma chosen_cell:
  assumes "chosen g sz boxDims ds (emptyCells g (List.product [0..<sz] [0..<sz])) (Some (r, c, cand)) st"
  shows "(r, c) \<in> allCells sz \<and> g ! r ! c = 0 \<and>
         set (heap st ! cand) = set (legalCandidates g sz boxDims ds (r, c))"
proof -
  from assms obtain pre post where
    e: "emptyCells g (List.product [0..<sz] [0..<sz]) = pre @ (r, c) # post"
    and m: "mset (heap st ! cand) = mset (legalCandidates g sz boxDims ds (r, c))"
    by (auto simp: chosen_def)
  from e have "(r, c) \<in> set (emptyCells g (List.product [0..<sz] [0..<sz]))" by simp
  then have "(r, c) \<in> allCells sz" "g ! r ! c = 0"
    by (auto simp: emptyCells_def allCells_def)
  with mset_eq_setD[OF m] show ?thesis by simp
qed

lemma solveSudoku_spec:
  assumes bd: "getBoxDimensions sz = Inr boxDims"
  shows "gridInv sz boxDims g \<Longrightarrow> digitsAt sz digits st
           \<Longrightarrow> solveSudoku fuel rnd sz boxDims digits g st = Some res
           \<Longrightarrow> solved sz boxDims g st res"
proof (induction fuel arbitrary: g st res)
  case 0
  then show ?case by simp
next
  case (Suc fuel)
  obtain best st1 where fb: "findBestCell rnd g sz boxDims digits st = (best, st1)"
    by (cases "findBestCell rnd g sz boxDims digits st")
  from Suc.prems(2) have d: "digits < length (heap st)" "heap st ! digits = digitsOf sz"
    by (auto simp: digitsAt_def)
  from findBestCell_spec[OF d MAX_SAFE_INTEGER_big[OF supported_le9[OF bd]] fb]
  have f1: "frame st st1"
    and ch: "chosen g sz boxDims (digitsOf sz) (emptyCells g (List.product [0..<sz] [0..<sz])) best st1"
    by auto
  show ?case
  proof (cases best)
    case None
    with Suc.prems(3) fb have "res = (True, g, st1)" by simp
    moreover from ch None have "emptyCells g (List.product [0..<sz] [0..<sz]) = []"
      by (simp add: chosen_def)
    ultimately show ?thesis using f1 Suc.prems(1) by (simp add: solved_def)
  next
    case (Some b)
    obtain r c cand where b: "b = (r, c, cand)" by (cases b)
    from chosen_cell[OF ch[unfolded Some b]]
    have rc: "(r, c) \<in> allCells sz" and empty: "g ! r ! c = 0"
      and cs: "set (heap st1 ! cand) = set (legalCandidates g sz boxDims (digitsOf sz) (r, c))"
      by auto
    have nums: "\<forall>num \<in> set (heap st1 ! cand). isValid g r c num sz boxDims \<and> num \<le> sz"
      unfolding cs by (auto simp: legalCandidates_def digitsOf_props)
    from Suc.prems(3) fb Some b
    have run: "tryCandidates (solveSudoku fuel rnd sz boxDims digits) r c (heap st1 ! cand) g st1 = Some res"
      by simp
    have "solved sz boxDims g st1 res"
      by (rule tryCandidates_spec[OF bd Suc.IH Suc.prems(1) rc empty nums
            digitsAt_frame[OF f1 Suc.prems(2)] run])
    with f1 show ?thesis by (auto simp: solved_def intro: frame_trans)
  qed
qed

section \<open>Complete grids\<close>

lemma eachOnce_intro:
  assumes len: "length xs = n" and d: "distinct xs" and sub: "set xs \<subseteq> {1..n}"
  shows "eachOnce n xs"
proof -
  have "card (set xs) = n" using distinct_card[OF d] len by simp
  then have "card (set xs) = card {1..n}" by simp
  with sub have eq: "set xs = {1..n}" by (intro card_subset_eq) auto
  show ?thesis
    unfolding eachOnce_def
  proof
    fix x assume "x \<in> {1..n}"
    with eq have "x \<in> set xs" by simp
    with d have "count (mset xs) x = 1" by (simp add: distinct_count_atmost_1)
    then show "count_list xs x = 1" by (simp add: count_mset)
  qed
qed

lemma valid_of_full:
  assumes bd: "getBoxDimensions sz = Inr boxDims" and inv: "gridInv sz boxDims g"
    and full: "emptyCells g (List.product [0..<sz] [0..<sz]) = []"
  shows "validSolution sz boxDims g"
proof -
  from inv have wf: "wfGrid sz g" and nd: "noDup sz boxDims g"
    and bound: "\<forall>x \<in> allCells sz. g ! fst x ! snd x \<le> sz" by (auto simp: gridInv_def)
  have nz: "g ! r ! c \<noteq> 0" if "r < sz" "c < sz" for r c
  proof -
    from that have "(r, c) \<in> set (List.product [0..<sz] [0..<sz])" by simp
    with full show ?thesis by (auto simp: emptyCells_def filter_empty_conv)
  qed
  have val: "g ! r ! c \<in> {1..sz}" if "r < sz" "c < sz" for r c
    using nz[OF that] bound that by (force simp: allCells_def)
  have diff: "g ! r ! c \<noteq> g ! r' ! c'"
    if "r < sz" "c < sz" "r' < sz" "c' < sz" "(r, c) \<noteq> (r', c')" "peers boxDims (r, c) (r', c')"
    for r c r' c'
    using nd that nz[of r c] unfolding noDup_def allCells_def by force
  have rowsOK: "eachOnce sz (g ! r)" if r: "r < sz" for r
  proof (rule eachOnce_intro)
    show len: "length (g ! r) = sz" using wf r by (simp add: wfGrid_def)
    show "distinct (g ! r)"
      unfolding distinct_conv_nth
      using diff[of r _ r] r len by (auto simp: peers_def)
    show "set (g ! r) \<subseteq> {1..sz}"
      using val[OF r] len by (auto simp: in_set_conv_nth)
  qed
  have colsOK: "eachOnce sz (colOf sz g c)" if c: "c < sz" for c
  proof (rule eachOnce_intro)
    show "length (colOf sz g c) = sz" by (simp add: colOf_def)
    have "inj_on (\<lambda>i. g ! i ! c) {0..<sz}"
    proof (rule inj_onI)
      fix x y assume "x \<in> {0..<sz}" "y \<in> {0..<sz}" and eq: "g ! x ! c = g ! y ! c"
      then have x: "x < sz" and y: "y < sz" by auto
      show "x = y"
      proof (rule ccontr)
        assume "x \<noteq> y"
        then have "(x, c) \<noteq> (y, c)" by simp
        from diff[OF x c y c this] eq show False by (simp add: peers_def)
      qed
    qed
    then show "distinct (colOf sz g c)"
      unfolding colOf_def by (simp add: distinct_map)
    show "set (colOf sz g c) \<subseteq> {1..sz}"
      using val[OF _ c] by (auto simp: colOf_def)
  qed
  have shape: "0 < rows boxDims" "0 < cols boxDims" "rows boxDims * cols boxDims = sz"
    "rows boxDims dvd sz" "cols boxDims dvd sz"
    using bd by (auto elim!: boxDims_cases)
  have boxesOK: "eachOnce sz (boxOf boxDims g R C)"
    if R: "R < sz div rows boxDims" and C: "C < sz div cols boxDims" for R C
  proof (rule eachOnce_intro)
    let ?f = "\<lambda>(i, j). g ! (R * rows boxDims + i) ! (C * cols boxDims + j)"
    let ?xs = "List.product [0..<rows boxDims] [0..<cols boxDims]"
    have Rr: "R * rows boxDims + rows boxDims \<le> sz"
    proof -
      from R have "Suc R \<le> sz div rows boxDims" by simp
      then have "Suc R * rows boxDims \<le> sz div rows boxDims * rows boxDims" by (rule mult_le_mono1)
      with shape(4) show ?thesis by simp
    qed
    have Cc: "C * cols boxDims + cols boxDims \<le> sz"
    proof -
      from C have "Suc C \<le> sz div cols boxDims" by simp
      then have "Suc C * cols boxDims \<le> sz div cols boxDims * cols boxDims" by (rule mult_le_mono1)
      with shape(5) show ?thesis by simp
    qed
    have inr: "R * rows boxDims + i < sz \<and> C * cols boxDims + j < sz \<and>
        (R * rows boxDims + i) div rows boxDims = R \<and> (C * cols boxDims + j) div cols boxDims = C"
      if "i < rows boxDims" "j < cols boxDims" for i j
      using that Rr Cc shape(1,2) by (auto simp: div_eq_range)
    show "length (boxOf boxDims g R C) = sz"
      using shape(3) by (simp add: boxOf_def)
    have "inj_on ?f (set ?xs)"
    proof (rule inj_onI)
      fix x y assume x: "x \<in> set ?xs" and y: "y \<in> set ?xs" and eq: "?f x = ?f y"
      obtain i j where xi: "x = (i, j)" by (cases x)
      obtain i' j' where yi: "y = (i', j')" by (cases y)
      from x y xi yi have r: "i < rows boxDims" "j < cols boxDims" "i' < rows boxDims" "j' < cols boxDims"
        by auto
      show "x = y"
      proof (rule ccontr)
        assume "x \<noteq> y"
        with xi yi have ne: "(R * rows boxDims + i, C * cols boxDims + j)
            \<noteq> (R * rows boxDims + i', C * cols boxDims + j')" by auto
        have "peers boxDims (R * rows boxDims + i, C * cols boxDims + j)
            (R * rows boxDims + i', C * cols boxDims + j')"
          using inr[OF r(1,2)] inr[OF r(3,4)] by (simp add: peers_def)
        from diff[OF _ _ _ _ ne this] inr[OF r(1,2)] inr[OF r(3,4)] eq xi yi
        show False by simp
      qed
    qed
    then show "distinct (boxOf boxDims g R C)"
      unfolding boxOf_def by (simp add: distinct_map distinct_product)
    show "set (boxOf boxDims g R C) \<subseteq> {1..sz}"
    proof
      fix v assume "v \<in> set (boxOf boxDims g R C)"
      then obtain i j where "i < rows boxDims" "j < cols boxDims"
        "v = g ! (R * rows boxDims + i) ! (C * cols boxDims + j)"
        by (auto simp: boxOf_def)
      with inr[of i j] val show "v \<in> {1..sz}" by simp
    qed
  qed
  have "0 \<notin> set (g ! r)" if r: "r < sz" for r
  proof
    assume "0 \<in> set (g ! r)"
    then obtain c where "c < length (g ! r)" "g ! r ! c = 0" by (auto simp: in_set_conv_nth)
    with wf r nz[of r c] show False by (simp add: wfGrid_def)
  qed
  with wf rowsOK colsOK boxesOK show ?thesis by (simp add: validSolution_def)
qed

section \<open>Seeding the diagonal boxes\<close>

lemma fillCells:
  assumes "wfGrid sz g" and "\<forall>x \<in> set cs. r + fst x < sz \<and> c + snd x < sz" and "distinct cs"
  shows "wfGrid sz (fst (fold (fillStep ys r c) cs (g, n0))) \<and>
         (\<forall>k < length cs. fst (fold (fillStep ys r c) cs (g, n0)) ! (r + fst (cs ! k)) ! (c + snd (cs ! k))
              = ys ! (n0 + k)) \<and>
         (\<forall>a < sz. \<forall>b < sz. (\<forall>x \<in> set cs. (a, b) \<noteq> (r + fst x, c + snd x))
              \<longrightarrow> fst (fold (fillStep ys r c) cs (g, n0)) ! a ! b = g ! a ! b)"
  using assms
proof (induction cs arbitrary: g n0)
  case Nil
  then show ?case by simp
next
  case (Cons x cs)
  obtain i j where x: "x = (i, j)" by (cases x)
  let ?g1 = "setCell g (r + i) (c + j) (ys ! n0)"
  let ?res = "fst (fold (fillStep ys r c) cs (?g1, n0 + 1))"
  have step: "fold (fillStep ys r c) (x # cs) (g, n0) = fold (fillStep ys r c) cs (?g1, n0 + 1)"
    by (simp add: x fillStep_def)
  from Cons.prems x have ij: "r + i < sz" "c + j < sz" by auto
  have wf1: "wfGrid sz ?g1" by (rule wfGrid_setCell[OF Cons.prems(1)])
  from Cons.prems have rest: "\<forall>x \<in> set cs. r + fst x < sz \<and> c + snd x < sz" "distinct cs" by auto
  note ih = Cons.IH[OF wf1 rest, of "n0 + 1"]
  from ih have wf: "wfGrid sz ?res" by simp
  from ih have vals: "\<And>k. k < length cs \<Longrightarrow> ?res ! (r + fst (cs ! k)) ! (c + snd (cs ! k)) = ys ! (n0 + 1 + k)"
    by simp
  from ih have same: "\<And>a b. a < sz \<Longrightarrow> b < sz \<Longrightarrow> (\<forall>x \<in> set cs. (a, b) \<noteq> (r + fst x, c + snd x))
        \<Longrightarrow> ?res ! a ! b = ?g1 ! a ! b" by simp
  have notin: "\<forall>y \<in> set cs. (r + i, c + j) \<noteq> (r + fst y, c + snd y)"
  proof
    fix y assume y: "y \<in> set cs"
    with Cons.prems(3) x have "y \<noteq> (i, j)" by auto
    then show "(r + i, c + j) \<noteq> (r + fst y, c + snd y)" by (cases y) auto
  qed
  have first: "?res ! (r + i) ! (c + j) = ys ! n0"
    using same[OF ij notin] nth_setCell[OF Cons.prems(1) ij ij] by simp
  have v: "?res ! (r + fst ((x # cs) ! k)) ! (c + snd ((x # cs) ! k)) = ys ! (n0 + k)"
    if "k < length (x # cs)" for k
  proof (cases k)
    case 0
    with first x show ?thesis by simp
  next
    case (Suc k')
    with that vals[of k'] show ?thesis by simp
  qed
  have s: "?res ! a ! b = g ! a ! b"
    if ab: "a < sz" "b < sz" and out: "\<forall>y \<in> set (x # cs). (a, b) \<noteq> (r + fst y, c + snd y)" for a b
  proof -
    from out have o1: "\<forall>y \<in> set cs. (a, b) \<noteq> (r + fst y, c + snd y)" and o2: "(a, b) \<noteq> (r + i, c + j)"
      using x by auto
    from same[OF ab o1] nth_setCell[OF Cons.prems(1) ij ab] o2 show ?thesis by auto
  qed
  from wf v s show ?case unfolding step by blast
qed

lemma fillBox_spec:
  assumes wf: "wfGrid sz g" and fit: "r + rows boxDims \<le> sz" "c + cols boxDims \<le> sz"
    and area: "rows boxDims * cols boxDims = sz"
    and dg: "digitsAt sz digits st"
    and run: "fillBox rnd g r c boxDims digits st = (g', st')"
  shows "frame st st' \<and> wfGrid sz g' \<and>
         (\<forall>x \<in> allCells sz. \<not> inBox r c boxDims x \<longrightarrow> g' ! fst x ! snd x = g ! fst x ! snd x) \<and>
         (\<forall>x \<in> allCells sz. inBox r c boxDims x \<longrightarrow> 1 \<le> g' ! fst x ! snd x \<and> g' ! fst x ! snd x \<le> sz) \<and>
         (\<forall>x \<in> allCells sz. \<forall>y \<in> allCells sz. inBox r c boxDims x \<and> inBox r c boxDims y \<and> x \<noteq> y
             \<longrightarrow> g' ! fst x ! snd x \<noteq> g' ! fst y ! snd y)"
proof -
  obtain numbers st1 where sh: "shuffleArray rnd digits st = (numbers, st1)"
    by (cases "shuffleArray rnd digits st")
  from shuffleArray_result[OF sh] obtain ys where
    fr: "frame st st1" and num: "numbers = length (heap st)"
    and h1: "heap st1 = heap st @ [ys]" and ms: "mset ys = mset (heap st ! digits)" by auto
  from dg have "heap st ! digits = digitsOf sz" by (simp add: digitsAt_def)
  with ms have ms': "mset ys = mset (digitsOf sz)" by simp
  have ysl: "length ys = sz" using mset_eq_length[OF ms'] by (simp add: digitsOf_props)
  have ysd: "distinct ys" using ms' digitsOf_props by (metis mset_eq_imp_distinct_iff)
  have yss: "set ys = {1..sz}" using mset_eq_setD[OF ms'] by (simp add: digitsOf_props)
  have hy: "heap st1 ! numbers = ys" using num h1 by simp
  let ?cs = "List.product [0..<rows boxDims] [0..<cols boxDims]"
  let ?res = "fst (fold (fillStep ys r c) ?cs (g, 0))"
  from run sh hy have g': "g' = ?res" and st': "st' = st1"
    by (simp_all add: fillBox_def fillStep_def)
  have inr: "\<forall>x \<in> set ?cs. r + fst x < sz \<and> c + snd x < sz" using fit by auto
  have dcs: "distinct ?cs" by (simp add: distinct_product)
  have lcs: "length ?cs = sz" using area by simp
  note fc = fillCells[OF wf inr dcs, of ys 0]
  from fc have wf': "wfGrid sz ?res" by simp
  from fc have vals: "\<And>k. k < sz \<Longrightarrow> ?res ! (r + fst (?cs ! k)) ! (c + snd (?cs ! k)) = ys ! k"
    using lcs by simp
  from fc have same: "\<And>a b. a < sz \<Longrightarrow> b < sz \<Longrightarrow> (\<forall>x \<in> set ?cs. (a, b) \<noteq> (r + fst x, c + snd x))
        \<Longrightarrow> ?res ! a ! b = g ! a ! b" by simp
  have idx: "\<exists>k < sz. x = (r + fst (?cs ! k), c + snd (?cs ! k))" if "inBox r c boxDims x" for x
  proof -
    from that have "(fst x - r, snd x - c) \<in> set ?cs" by (auto simp: inBox_def)
    then obtain k where "k < length ?cs" "?cs ! k = (fst x - r, snd x - c)"
      unfolding in_set_conv_nth by blast
    with that lcs show ?thesis by (intro exI[of _ k]) (auto simp: inBox_def)
  qed
  have out: "?res ! fst x ! snd x = g ! fst x ! snd x" if "x \<in> allCells sz" "\<not> inBox r c boxDims x" for x
  proof -
    from that(1) have ab: "fst x < sz" "snd x < sz" by (auto simp: allCells_def)
    have "\<forall>y \<in> set ?cs. (fst x, snd x) \<noteq> (r + fst y, c + snd y)"
      using that(2) by (auto simp: inBox_def)
    from same[OF ab this] show ?thesis .
  qed
  have rng: "1 \<le> ?res ! fst x ! snd x \<and> ?res ! fst x ! snd x \<le> sz" if "inBox r c boxDims x" for x
  proof -
    from idx[OF that] obtain k where k: "k < sz" "x = (r + fst (?cs ! k), c + snd (?cs ! k))" by blast
    with vals[OF k(1)] have "?res ! fst x ! snd x = ys ! k" by simp
    moreover have "ys ! k \<in> set ys" using k(1) ysl by simp
    ultimately show ?thesis using yss by simp
  qed
  have inj: "?res ! fst x ! snd x \<noteq> ?res ! fst y ! snd y"
    if "inBox r c boxDims x" "inBox r c boxDims y" "x \<noteq> y" for x y
  proof -
    from idx[OF that(1)] obtain k where k: "k < sz" "x = (r + fst (?cs ! k), c + snd (?cs ! k))" by blast
    from idx[OF that(2)] obtain l where l: "l < sz" "y = (r + fst (?cs ! l), c + snd (?cs ! l))" by blast
    from that(3) k l have "k \<noteq> l" by auto
    with ysd k(1) l(1) ysl have "ys ! k \<noteq> ys ! l" by (simp add: nth_eq_iff_index_eq)
    with vals[OF k(1)] vals[OF l(1)] k(2) l(2) show ?thesis by simp
  qed
  from fr wf' out rng inj show ?thesis unfolding g' st' by blast
qed

lemma fold_product:
  "fold f (List.product xs ys) s = fold (\<lambda>a. fold (\<lambda>b. f (a, b)) ys) xs s"
  by (induction xs arbitrary: s) (simp_all add: fold_map comp_def)

lemma fold_diag_inner:
  "fold (\<lambda>b s. if a = b then F a s else s) [0..<n] s = (if a < n then F a s else s)"
  by (induction n) auto

lemma fold_diagonal:
  "fold (\<lambda>(a, b) s. if a = b then F a s else s) (List.product [0..<n] [0..<n]) s = fold F [0..<n] s"
proof -
  have "fold (\<lambda>(a, b) s. if a = b then F a s else s) (List.product [0..<n] [0..<n]) s
      = fold (\<lambda>a. fold (\<lambda>b s. if a = b then F a s else s) [0..<n]) [0..<n] s"
    by (simp add: fold_product)
  also have "\<dots> = fold F [0..<n] s"
    by (rule fold_cong) (auto simp: fold_diag_inner)
  finally show ?thesis .
qed

lemma fillDiagonalBoxes_fold:
  "fillDiagonalBoxes rnd grid sz boxDims digits st
     = fold (seedBox rnd boxDims digits) [0..<boxesPerRowOf sz boxDims] (grid, st)"
proof -
  have "(\<lambda>(boxRow, boxCol) (g, st').
                 if boxRow = boxCol then
                   let startRow = boxRow * rows boxDims;
                       startCol = boxCol * cols boxDims
                   in fillBox rnd g startRow startCol boxDims digits st'
                 else (g, st'))
       = (\<lambda>(a, b) s. if a = b then seedBox rnd boxDims digits a s else s)"
    by (auto simp: fun_eq_iff seedBox_def)
  then show ?thesis
    unfolding fillDiagonalBoxes_def Let_def by (simp only: fold_diagonal)
qed

lemma seedBox_step:
  assumes bd: "getBoxDimensions sz = Inr boxDims" and k: "k < boxesPerRowOf sz boxDims"
    and dg: "digitsAt sz digits st0"
    and inv: "seeded sz boxDims k st0 (g, st)"
  shows "seeded sz boxDims (Suc k) st0 (seedBox rnd boxDims digits k (g, st))"
proof -
  let ?r = "k * rows boxDims" and ?c = "k * cols boxDims"
  from inv have fr: "frame st0 st" and gi: "gridInv sz boxDims g"
    and zero: "\<And>x. x \<in> allCells sz \<Longrightarrow> g ! fst x ! snd x \<noteq> 0 \<Longrightarrow> fst x < ?r \<and> snd x < ?c"
    by (auto simp: seeded_def)
  from gi have wf: "wfGrid sz g" and nd: "noDup sz boxDims g"
    and bound: "\<forall>x \<in> allCells sz. g ! fst x ! snd x \<le> sz" by (auto simp: gridInv_def)
  have shape: "0 < rows boxDims" "0 < cols boxDims" "rows boxDims * cols boxDims = sz"
    "?r + rows boxDims \<le> sz" "?c + cols boxDims \<le> sz"
    using bd k by (auto elim!: boxDims_cases simp: boxesPerRowOf_def)
  obtain g' st' where run: "fillBox rnd g ?r ?c boxDims digits st = (g', st')"
    by (cases "fillBox rnd g ?r ?c boxDims digits st")
  note fb = fillBox_spec[OF wf shape(4,5,3) digitsAt_frame[OF fr dg] run]
  from fb have fr': "frame st st'" and wf': "wfGrid sz g'" by auto
  from fb have out: "\<And>x. x \<in> allCells sz \<Longrightarrow> \<not> inBox ?r ?c boxDims x \<Longrightarrow> g' ! fst x ! snd x = g ! fst x ! snd x"
    by blast
  from fb have rng: "\<And>x. x \<in> allCells sz \<Longrightarrow> inBox ?r ?c boxDims x
           \<Longrightarrow> 1 \<le> g' ! fst x ! snd x \<and> g' ! fst x ! snd x \<le> sz" by blast
  from fb have inj: "\<And>x y. x \<in> allCells sz \<Longrightarrow> y \<in> allCells sz \<Longrightarrow> inBox ?r ?c boxDims x
           \<Longrightarrow> inBox ?r ?c boxDims y \<Longrightarrow> x \<noteq> y \<Longrightarrow> g' ! fst x ! snd x \<noteq> g' ! fst y ! snd y" by blast
  have boxk: "inBox ?r ?c boxDims x \<longleftrightarrow> fst x div rows boxDims = k \<and> snd x div cols boxDims = k" for x
    using shape(1,2) by (auto simp: inBox_def div_eq_range)
  have bnd': "g' ! fst x ! snd x \<le> sz" if "x \<in> allCells sz" for x
    using rng[OF that] out[OF that] bound that by (cases "inBox ?r ?c boxDims x") auto
  have nz': "fst x < Suc k * rows boxDims \<and> snd x < Suc k * cols boxDims"
    if x: "x \<in> allCells sz" and "g' ! fst x ! snd x \<noteq> 0" for x
  proof (cases "inBox ?r ?c boxDims x")
    case True
    then show ?thesis by (simp add: inBox_def)
  next
    case False
    with out[OF x] that(2) zero[OF x] show ?thesis by auto
  qed
  have nd': "noDup sz boxDims g'"
    unfolding noDup_def
  proof (intro ballI impI)
    fix x y assume x: "x \<in> allCells sz" and y: "y \<in> allCells sz"
      and h: "x \<noteq> y \<and> peers boxDims x y \<and> g' ! fst x ! snd x \<noteq> 0"
    show "g' ! fst x ! snd x \<noteq> g' ! fst y ! snd y"
    proof (cases "inBox ?r ?c boxDims x")
      case xin: True
      show ?thesis
      proof (cases "inBox ?r ?c boxDims y")
        case True
        from inj[OF x y xin True] h show ?thesis by simp
      next
        case False
        have "g ! fst y ! snd y = 0"
        proof (rule ccontr)
          assume "g ! fst y ! snd y \<noteq> 0"
          from zero[OF y this] have "fst y < ?r" "snd y < ?c" by auto
          moreover from xin have "?r \<le> fst x" "?c \<le> snd x" by (auto simp: inBox_def)
          moreover from xin have "fst x div rows boxDims = k" by (simp add: boxk)
          moreover have "fst y div rows boxDims < k"
            using \<open>fst y < ?r\<close> shape(1) by (simp add: div_less_iff_less_mult)
          ultimately show False using h by (auto simp: peers_def)
        qed
        with out[OF y False] h show ?thesis by simp
      qed
    next
      case xout: False
      from out[OF x xout] h have gx: "g ! fst x ! snd x \<noteq> 0" by simp
      from zero[OF x gx] have xr: "fst x < ?r" "snd x < ?c" by auto
      have "\<not> inBox ?r ?c boxDims y"
      proof
        assume yin: "inBox ?r ?c boxDims y"
        then have "?r \<le> fst y" "?c \<le> snd y" by (auto simp: inBox_def)
        moreover from yin have "fst y div rows boxDims = k" by (simp add: boxk)
        moreover have "fst x div rows boxDims < k"
          using xr(1) shape(1) by (simp add: div_less_iff_less_mult)
        ultimately show False using h xr by (auto simp: peers_def)
      qed
      from out[OF y this] out[OF x xout] nd x y h show ?thesis
        unfolding noDup_def by auto
    qed
  qed
  have res: "seedBox rnd boxDims digits k (g, st) = (g', st')"
    by (simp add: seedBox_def run)
  from frame_trans[OF fr fr'] wf' nd' bnd' nz' show ?thesis
    unfolding res seeded_def gridInv_def by simp
qed

lemma seedBox_fold:
  assumes bd: "getBoxDimensions sz = Inr boxDims" and dg: "digitsAt sz digits st0"
    and init: "seeded sz boxDims 0 st0 (g, st0)"
  shows "k \<le> boxesPerRowOf sz boxDims
           \<Longrightarrow> seeded sz boxDims k st0 (fold (seedBox rnd boxDims digits) [0..<k] (g, st0))"
proof (induction k)
  case 0
  with init show ?case by simp
next
  case (Suc k)
  then have k: "k < boxesPerRowOf sz boxDims" and ih: "seeded sz boxDims k st0 (fold (seedBox rnd boxDims digits) [0..<k] (g, st0))"
    by auto
  obtain g1 st1 where f: "fold (seedBox rnd boxDims digits) [0..<k] (g, st0) = (g1, st1)"
    by (cases "fold (seedBox rnd boxDims digits) [0..<k] (g, st0)")
  from seedBox_step[OF bd k dg ih[unfolded f]] f show ?case by simp
qed

lemma zero_grid_seeded: "seeded sz boxDims 0 st (replicate sz (replicate sz 0), st)"
  by (auto simp: seeded_def gridInv_def wfGrid_def noDup_def allCells_def)

lemma zeroed_grid: "wfGrid sz g \<Longrightarrow> map (\<lambda>row. replicate (length row) 0) g = replicate sz (replicate sz 0)"
  by (auto simp: wfGrid_def list_eq_iff_nth_eq)

lemma attemptOnce_spec:
  assumes bd: "getBoxDimensions sz = Inr boxDims" and dg: "digitsAt sz digits st"
    and wf: "wfGrid sz g"
    and run: "attemptOnce fuel rnd sz boxDims digits g st = Some (ok, g', st')"
  shows "frame st st' \<and> gridInv sz boxDims g' \<and> (ok \<longrightarrow> validSolution sz boxDims g')"
proof -
  let ?z = "replicate sz (replicate sz 0)"
  obtain g1 st1 where fd: "fillDiagonalBoxes rnd ?z sz boxDims digits st = (g1, st1)"
    by (cases "fillDiagonalBoxes rnd ?z sz boxDims digits st")
  from seedBox_fold[OF bd dg zero_grid_seeded order_refl, of rnd] fd
  have f1: "frame st st1" and gi: "gridInv sz boxDims g1"
    by (auto simp: fillDiagonalBoxes_fold seeded_def)
  from run fd have "solveSudoku fuel rnd sz boxDims digits g1 st1 = Some (ok, g', st')"
    by (simp add: attemptOnce_def zeroed_grid[OF wf])
  from solveSudoku_spec[OF bd gi digitsAt_frame[OF f1 dg] this]
  have "frame st1 st'" "gridInv sz boxDims g'"
    "ok \<longrightarrow> emptyCells g' (List.product [0..<sz] [0..<sz]) = []"
    by (auto simp: solved_def)
  with f1 valid_of_full[OF bd] show ?thesis by (auto intro: frame_trans)
qed

section \<open>The search returns\<close>







lemma wfGrid_zero: "wfGrid sz (replicate sz (replicate sz 0))"
  by (simp add: wfGrid_def)


section \<open>The retry loop\<close>

lemma generateLoop_valid:
  assumes bd: "getBoxDimensions sz = Inr boxDims"
  shows "attempt + n = maxAttempts \<Longrightarrow> digitsAt sz digits st \<Longrightarrow> wfGrid sz g
           \<Longrightarrow> generateLoop fuel rnd sz boxDims digits attempt g st = Some res
           \<Longrightarrow> frame st (snd res) \<and> (\<forall>g'. fst res = Inr g' \<longrightarrow> validSolution sz boxDims g')"
proof (induction n arbitrary: attempt g st)
  case 0
  then have "generateLoop fuel rnd sz boxDims digits attempt g st = Some (Inl GenerationFailureError, st)"
    by (simp add: generateLoop.simps)
  with 0 show ?case by auto
next
  case (Suc n)
  from Suc.prems(1) have a: "attempt < maxAttempts" "(attempt + 1) + n = maxAttempts" by auto
  from Suc.prems(4) a(1) obtain r1 where at0: "attemptOnce fuel rnd sz boxDims digits g st = Some r1"
    by (subst (asm) generateLoop.simps) (auto split: option.splits)
  obtain ok g' st' where "r1 = (ok, g', st')" by (cases r1)
  with at0 have at: "attemptOnce fuel rnd sz boxDims digits g st = Some (ok, g', st')" by simp
  from attemptOnce_spec[OF bd Suc.prems(2,3) at]
  have f1: "frame st st'" and gi: "gridInv sz boxDims g'" and val: "ok \<longrightarrow> validSolution sz boxDims g'"
    by auto
  show ?case
  proof (cases ok)
    case True
    with at a(1) have "generateLoop fuel rnd sz boxDims digits attempt g st = Some (Inr g', st')"
      by (simp add: generateLoop.simps)
    with Suc.prems(4) have "res = (Inr g', st')" by simp
    with f1 val True show ?thesis by simp
  next
    case False
    with at a(1) have "generateLoop fuel rnd sz boxDims digits attempt g st
        = generateLoop fuel rnd sz boxDims digits (attempt + 1) g' st'"
      by (subst generateLoop.simps) simp
    with Suc.prems(4) have "generateLoop fuel rnd sz boxDims digits (attempt + 1) g' st' = Some res"
      by simp
    from gi have wf': "wfGrid sz g'" by (simp add: gridInv_def)
    from Suc.IH[OF a(2) digitsAt_frame[OF f1 Suc.prems(2)] wf' \<open>generateLoop fuel rnd sz boxDims digits (attempt + 1) g' st' = Some res\<close>]
    have "frame st' (snd res)" "\<forall>g'. fst res = Inr g' \<longrightarrow> validSolution sz boxDims g'" by auto
    with frame_trans[OF f1] show ?thesis by blast
  qed
qed

lemma generateSudoku_unfold:
  assumes bd: "getBoxDimensions sz = Inr boxDims" and gd: "getDigits sz st = (digits, st1)"
  shows "generateSudoku fuel rnd sz st
      = generateLoop fuel rnd sz boxDims digits 0 (replicate sz (replicate sz 0)) st1"
proof -
  from bd have "sz = 4 \<or> sz = 6 \<or> sz = 9" by (auto elim!: boxDims_cases)
  then have av: "assertValidSize sz = Inr ()" by (simp add: assertValidSize_Inr)
  show ?thesis by (simp add: generateSudoku_def av bd gd)
qed

lemma generateSudoku_valid:
  assumes bd: "getBoxDimensions sz = Inr boxDims" and ok: "cacheOK st"
    and run: "generateSudoku fuel rnd sz st = Some res"
  shows "cacheOK (snd res) \<and> (\<forall>g. fst res = Inr g \<longrightarrow> validSolution sz boxDims g)"
proof -
  obtain digits st1 where gd: "getDigits sz st = (digits, st1)" by (cases "getDigits sz st")
  from getDigits_result[OF ok gd] have ok1: "cacheOK st1" and dg: "digitsAt sz digits st1"
    by (auto simp: digitsAt_def)
  from run have "generateLoop fuel rnd sz boxDims digits 0 (replicate sz (replicate sz 0)) st1 = Some res"
    by (simp add: generateSudoku_unfold[OF bd gd])
  from generateLoop_valid[OF bd _ dg wfGrid_zero this, of maxAttempts]
  have "frame st1 (snd res)" "\<forall>g. fst res = Inr g \<longrightarrow> validSolution sz boxDims g" by auto
  with frame_cacheOK[OF _ ok1] show ?thesis by blast
qed






section \<open>The digit cache across calls\<close>

lemma supported_cases:
  obtains (unsupported) "assertValidSize sz = Inl UnsupportedSizeError"
  | (supported) boxDims where "getBoxDimensions sz = Inr boxDims"
proof (cases "sz = 4 \<or> sz = 6 \<or> sz = 9")
  case True
  then have "\<exists>boxDims. getBoxDimensions sz = Inr boxDims" by (auto simp: getBoxDimensions_def)
  with supported show ?thesis by blast
next
  case False
  then have "assertValidSize sz = Inl UnsupportedSizeError" by (simp add: assertValidSize_Inl)
  with unsupported show ?thesis .
qed

lemma generateSudoku_cacheOK:
  assumes ok: "cacheOK st" and run: "generateSudoku fuel rnd sz st = Some (res, st')"
  shows "cacheOK st'"
proof (cases sz rule: supported_cases)
  case unsupported
  with run have "st' = st" by (simp add: generateSudoku_def)
  with ok show ?thesis by simp
next
  case (supported boxDims)
  from generateSudoku_valid[OF supported ok run] show ?thesis by simp
qed

lemma createPuzzle_cacheOK:
  assumes ok: "cacheOK st" and wf: "wellFormed sz grid st"
    and run: "createPuzzle rnd grid sz difficulty st = (res, st')"
  shows "cacheOK st'"
proof (cases sz rule: supported_cases)
  case unsupported
  with run have "st' = st" by (simp add: createPuzzle_def)
  with ok show ?thesis by simp
next
  case (supported boxDims)
  define rs where "rs = runSteps rnd sz boxDims (targetCellsToRemove sz difficulty) (freshCopy sz boxDims grid st)"
  note r = createPuzzle_result[OF supported wf, of rnd difficulty, folded rs_def]
  note cells = run_puzzle_cells[OF wf r(2)]
  from wf have valid: "\<forall>a \<in> set grid. a < length (heap st)" by (simp add: wellFormed_def)
  from r(1) run have st': "st' = (snd (copyRows grid st))\<lparr>heap := store rs, rpos := draws rs\<rparr>" by simp
  have "digitsCache st' = digitsCache st" by (simp add: st' copyRows_result[OF valid])
  moreover have "length (heap st) \<le> length (heap st')" using cells(2) by (simp add: st')
  moreover have "\<forall>a < length (heap st). heap st' ! a = heap st ! a" using cells(3) by (simp add: st')
  ultimately have "frame st st'" by (simp add: frame_def)
  from frame_cacheOK[OF this ok] show ?thesis .
qed

lemma calls_cacheOK:
  assumes "calls st0 st" and "cacheOK st0"
  shows "cacheOK st"
  using assms
proof (induction rule: calls.induct)
  case calls_none
  then show ?case .
next
  case (calls_generate st fuel rnd sz res st')
  then show ?case by (auto intro: generateSudoku_cacheOK)
next
  case (calls_puzzle st sz grid rnd difficulty res st')
  then show ?case by (auto intro: createPuzzle_cacheOK)
next
  case (calls_store st xs a st')
  from frame_alloc[OF calls_store.hyps(2)] have "frame st st'" by simp
  from frame_cacheOK[OF this] calls_store show ?case by simp
qed

lemma digitsOf_upt: "digitsOf n = [1..<Suc n]"
  unfolding digitsOf_def using map_Suc_upt[of 0 n] by simp

text \<open>
  C10. \<open>shuffleArray\<close> works on a fresh copy: every array that exists when it is called,
  its argument among them, is unchanged when it returns, and the array it returns is new
  and a permutation of its argument. The digit cache is empty when the module is loaded.
  In every state reached from there by any number of calls of \<open>generateSudoku\<close> and
  \<open>createPuzzle\<close>, every entry of the cache, and so the array that \<open>getDigits\<close> returns
  for a size \<open>n\<close>, is the ascending list of the digits from 1 to \<open>n\<close>.
\<close>

theorem cached_digits_stable:
  assumes "digitsCache st0 = Map.empty" and "calls st0 st"
  shows "(\<forall>rnd array s arr s'. shuffleArray rnd array s = (arr, s') \<longrightarrow>
            arr = length (heap s) \<and> length (heap s') = length (heap s) + 1 \<and>
            (\<forall>a < length (heap s). heap s' ! a = heap s ! a) \<and>
            mset (heap s' ! arr) = mset (heap s ! array) \<and> digitsCache s' = digitsCache s) \<and>
         (\<forall>n a. digitsCache st n = Some a \<longrightarrow> a < length (heap st) \<and> heap st ! a = [1..<Suc n]) \<and>
         (\<forall>n digits st'. getDigits n st = (digits, st') \<longrightarrow>
            digits < length (heap st') \<and> heap st' ! digits = [1..<Suc n])"
proof (intro conjI allI impI)
  fix rnd array s arr s' assume sh: "shuffleArray rnd array s = (arr, s')"
  from shuffleArray_result[OF sh] obtain ys where
    r: "arr = length (heap s)" "frame s s'" "heap s' = heap s @ [ys]" "mset ys = mset (heap s ! array)"
    by auto
  from r(1) show "arr = length (heap s)" .
  from r(3) show "length (heap s') = length (heap s) + 1" by simp
  from r(2) show "digitsCache s' = digitsCache s" by (simp add: frame_def)
  from r(1,3,4) show "mset (heap s' ! arr) = mset (heap s ! array)" by simp
  fix a assume "a < length (heap s)"
  with r(2) show "heap s' ! a = heap s ! a" by (simp add: frame_def)
next
  from assms(1) have "cacheOK st0" by (simp add: cacheOK_def)
  from calls_cacheOK[OF assms(2) this] have ok: "cacheOK st" .
  {
    fix n a assume "digitsCache st n = Some a"
    with ok show "a < length (heap st)" "heap st ! a = [1..<Suc n]"
      by (simp_all add: cacheOK_def digitsOf_upt)
  }
  {
    fix n digits st' assume "getDigits n st = (digits, st')"
    from getDigits_result[OF ok this]
    show "digits < length (heap st')" "heap st' ! digits = [1..<Suc n]"
      by (simp_all add: digitsOf_upt)
  }
qed

theorem cached_digits_stable_witness:
  "heap (snd (getDigits 4 (snd (the (generateSudoku 17 (fixedDraws []) 4 state0)))))
     ! fst (getDigits 4 (snd (the (generateSudoku 17 (fixedDraws []) 4 state0)))) = [1, 2, 3, 4] \<and>
   digitsCache (snd (the (generateSudoku 17 (fixedDraws []) 4 state0))) 4 = Some 0"
proof -
  let ?st = "snd (the (generateSudoku 17 (fixedDraws []) 4 state0))"
  have "map_option fst (generateSudoku 17 (fixedDraws []) 4 state0)
      = Some (Inr [[2, 3, 1, 4], [4, 1, 3, 2], [1, 4, 2, 3], [3, 2, 4, 1]])"
    by code_simp
  then have "generateSudoku 17 (fixedDraws []) 4 state0
      = Some (Inr [[2, 3, 1, 4], [4, 1, 3, 2], [1, 4, 2, 3], [3, 2, 4, 1]], ?st)"
    by auto
  from calls_generate[OF calls_none this] have c: "calls state0 ?st" .
  have e: "digitsCache state0 = Map.empty" by (simp add: state0_def)
  have g: "getDigits 4 ?st = (fst (getDigits 4 ?st), snd (getDigits 4 ?st))" by simp
  have u: "[1..<Suc 4] = [1, 2, 3, 4]" by (simp add: upt_rec)
  have d: "digitsCache ?st 4 = Some 0" by code_simp
  from cached_digits_stable[OF e c] g u d show ?thesis by metis
qed

section \<open>Rows, columns and boxes with an empty cell\<close>

lemma cover_fold_covered:
  fixes f :: "nat \<Rightarrow> RemovalState \<Rightarrow> RemovalState" and cov :: "RemovalState \<Rightarrow> nat set"
  assumes hit: "\<And>x rs. x \<in> set xs \<Longrightarrow> I rs \<Longrightarrow> x \<in> cov (f x rs)"
    and mono: "\<And>x rs. cov rs \<subseteq> cov (f x rs)"
    and inv: "\<And>x rs. x \<in> set xs \<Longrightarrow> I rs \<Longrightarrow> I (f x rs)"
  shows "I rs \<Longrightarrow> I (fold f xs rs) \<and> set xs \<union> cov rs \<subseteq> cov (fold f xs rs)"
  using hit inv
proof (induction xs arbitrary: rs)
  case Nil
  then show ?case by simp
next
  case (Cons x xs)
  have i1: "I (f x rs)" using Cons.prems by simp
  have "I (fold f xs (f x rs)) \<and> set xs \<union> cov (f x rs) \<subseteq> cov (fold f xs (f x rs))"
    by (rule Cons.IH[OF i1]) (use Cons.prems in auto)
  moreover have "x \<in> cov (f x rs)" using Cons.prems by simp
  moreover have "cov rs \<subseteq> cov (f x rs)" by (rule mono)
  ultimately show ?case by auto
qed

lemma step1_row_covers:
  assumes t: "trackInv sz boxDims rs" and pos: "0 < sz"
  shows "row \<in> rowsWithRemovals (step1_row rnd sz boxDims row rs)"
proof -
  consider (same) "step1_row rnd sz boxDims row rs = rs"
      "row \<in> rowsWithRemovals rs \<or> (\<forall>c < sz. (row, c) \<in> removedCells rs)"
    | (removed) c where "(row, c) \<notin> removedCells rs"
      "step1_row rnd sz boxDims row rs = removeCell sz boxDims row c (rs\<lparr>draws := draws rs + 1\<rparr>)"
    using step1_row_cases[of rnd sz boxDims row rs] by blast
  then show ?thesis
  proof cases
    case same
    from same(2) have "row \<in> rowsWithRemovals rs"
    proof
      assume "\<forall>c < sz. (row, c) \<in> removedCells rs"
      with pos have "(row, 0) \<in> removedCells rs" by simp
      then have "row \<in> fst ` removedCells rs" by force
      with t show ?thesis by (simp add: trackInv_def)
    qed
    with same(1) show ?thesis by simp
  next
    case removed
    then show ?thesis by (simp add: removeCell_def Let_def)
  qed
qed

lemma step2_col_covers:
  assumes t: "trackInv sz boxDims rs" and pos: "0 < sz"
  shows "col \<in> colsWithRemovals (step2_col rnd sz boxDims col rs)"
proof -
  consider (same) "step2_col rnd sz boxDims col rs = rs"
      "col \<in> colsWithRemovals rs \<or> (\<forall>r < sz. (r, col) \<in> removedCells rs)"
    | (removed) r where "(r, col) \<notin> removedCells rs"
      "step2_col rnd sz boxDims col rs = removeCell sz boxDims r col (rs\<lparr>draws := draws rs + 1\<rparr>)"
    using step2_col_cases[of rnd sz boxDims col rs] by blast
  then show ?thesis
  proof cases
    case same
    from same(2) have "col \<in> colsWithRemovals rs"
    proof
      assume "\<forall>r < sz. (r, col) \<in> removedCells rs"
      with pos have "(0, col) \<in> removedCells rs" by simp
      then have "col \<in> snd ` removedCells rs" by force
      with t show ?thesis by (simp add: trackInv_def)
    qed
    with same(1) show ?thesis by simp
  next
    case removed
    then show ?thesis by (simp add: removeCell_def Let_def)
  qed
qed

lemma boxCellsOf_index:
  assumes bd: "getBoxDimensions sz = Inr boxDims"
    and b: "b < boxesPerRowOf sz boxDims * boxesPerRowOf sz boxDims"
    and cell: "cell \<in> set (boxCellsOf sz boxDims b)"
  shows "getBoxIndex (fst cell) (snd cell) boxDims sz = b \<and> fst cell < sz \<and> snd cell < sz"
proof -
  let ?n = "boxesPerRowOf sz boxDims"
  from cell obtain i j where ij: "i < rows boxDims" "j < cols boxDims"
    and c: "cell = ((b div ?n) * rows boxDims + i, (b mod ?n) * cols boxDims + j)"
    by (auto simp: boxCellsOf_def)
  from bd have pos: "0 < rows boxDims" "0 < cols boxDims" by (auto elim!: boxDims_cases)
  have "((b div ?n) * rows boxDims + i) div rows boxDims = b div ?n"
    using ij(1) by simp
  moreover have "((b mod ?n) * cols boxDims + j) div cols boxDims = b mod ?n"
    using ij(2) by simp
  moreover have "b div ?n * ?n + b mod ?n = b" by (rule div_mult_mod_eq)
  ultimately have "getBoxIndex (fst cell) (snd cell) boxDims sz = b"
    by (simp add: c getBoxIndex_def Let_def)
  with box_cell_in_range[OF bd b ij] c show ?thesis by simp
qed

lemma step3_box_covers:
  assumes bd: "getBoxDimensions sz = Inr boxDims"
    and b: "b < boxesPerRowOf sz boxDims * boxesPerRowOf sz boxDims"
    and t: "trackInv sz boxDims rs"
  shows "b \<in> boxesWithRemovals (step3_box rnd sz boxDims b rs)"
proof -
  consider (same) "step3_box rnd sz boxDims b rs = rs"
      "b \<in> boxesWithRemovals rs \<or> set (boxCellsOf sz boxDims b) \<subseteq> removedCells rs"
    | (removed) cell where "cell \<in> set (boxCellsOf sz boxDims b)" "cell \<notin> removedCells rs"
      "step3_box rnd sz boxDims b rs = removeCell sz boxDims (fst cell) (snd cell) (rs\<lparr>draws := draws rs + 1\<rparr>)"
    using step3_box_cases[of rnd sz boxDims b rs] by blast
  then show ?thesis
  proof cases
    case same
    from same(2) have "b \<in> boxesWithRemovals rs"
    proof
      assume sub: "set (boxCellsOf sz boxDims b) \<subseteq> removedCells rs"
      from bd have "0 < rows boxDims" "0 < cols boxDims" by (auto elim!: boxDims_cases)
      then have "0 < length (boxCellsOf sz boxDims b)" by (simp add: boxCellsOf_def)
      then have "boxCellsOf sz boxDims b ! 0 \<in> set (boxCellsOf sz boxDims b)" by (rule nth_mem)
      then obtain cell where cell: "cell \<in> set (boxCellsOf sz boxDims b)" ..
      with sub have "cell \<in> removedCells rs" by blast
      then have "(\<lambda>(r, c). getBoxIndex r c boxDims sz) cell \<in> (\<lambda>(r, c). getBoxIndex r c boxDims sz) ` removedCells rs"
        by (rule imageI)
      with boxCellsOf_index[OF bd b cell] t show ?thesis
        by (simp add: trackInv_def case_prod_beta)
    qed
    with same(1) show ?thesis by simp
  next
    case removed
    from boxCellsOf_index[OF bd b removed(1)] removed(2,3) show ?thesis
      by (simp add: removeCell_def Let_def)
  qed
qed

text \<open>
  After the three coverage steps every row and every column has a removed cell, and so has
  every box that step 3 visits: the boxes of index below \<open>boxesPerRow * boxesPerRow\<close>.
  These are all the boxes for the sizes 4 and 9, and the boxes 0 to 3 of the six boxes for
  the size 6.
\<close>

lemma coverage_covers:
  assumes bd: "getBoxDimensions sz = Inr boxDims" and t: "trackInv sz boxDims rs0"
  shows "trackInv sz boxDims (coverage rnd sz boxDims rs0)"
    and "{0..<sz} \<subseteq> rowsWithRemovals (coverage rnd sz boxDims rs0)"
    and "{0..<sz} \<subseteq> colsWithRemovals (coverage rnd sz boxDims rs0)"
    and "{0..<boxesPerRowOf sz boxDims * boxesPerRowOf sz boxDims}
           \<subseteq> boxesWithRemovals (coverage rnd sz boxDims rs0)"
proof -
  let ?rs1 = "step1 rnd sz boxDims rs0"
  let ?rs2 = "step2 rnd sz boxDims ?rs1"
  let ?rs3 = "step3 rnd sz boxDims ?rs2"
  let ?n = "boxesPerRowOf sz boxDims * boxesPerRowOf sz boxDims"
  from bd have pos: "0 < sz" by (auto elim!: boxDims_cases)
  have t1: "trackInv sz boxDims ?rs1" by (rule removalRun_trackInv[OF step1_run t])
  have t2: "trackInv sz boxDims ?rs2" by (rule removalRun_trackInv[OF step2_run t1])
  have t3: "trackInv sz boxDims ?rs3" by (rule removalRun_trackInv[OF step3_run[OF bd] t2])
  have "trackInv sz boxDims (fold (step1_row rnd sz boxDims) [0..<sz] rs0) \<and>
        set [0..<sz] \<union> rowsWithRemovals rs0 \<subseteq> rowsWithRemovals (fold (step1_row rnd sz boxDims) [0..<sz] rs0)"
  proof (rule cover_fold_covered[where I = "trackInv sz boxDims"])
    show "x \<in> rowsWithRemovals (step1_row rnd sz boxDims x rs)" if "trackInv sz boxDims rs" for x rs
      by (rule step1_row_covers[OF that pos])
    show "rowsWithRemovals rs \<subseteq> rowsWithRemovals (step1_row rnd sz boxDims x rs)" for x rs
      using step1_row_cases[of rnd sz boxDims x rs] by (auto simp: removeCell_def Let_def)
    show "trackInv sz boxDims (step1_row rnd sz boxDims x rs)" if "x \<in> set [0..<sz]" "trackInv sz boxDims rs" for x rs
      using that by (intro removalRun_trackInv[OF step1_row_run]) auto
    show "trackInv sz boxDims rs0" by (rule t)
  qed
  then have r1: "{0..<sz} \<subseteq> rowsWithRemovals ?rs1" by (simp add: step1_def)
  have "trackInv sz boxDims (fold (step2_col rnd sz boxDims) [0..<sz] ?rs1) \<and>
        set [0..<sz] \<union> colsWithRemovals ?rs1 \<subseteq> colsWithRemovals (fold (step2_col rnd sz boxDims) [0..<sz] ?rs1)"
  proof (rule cover_fold_covered[where I = "trackInv sz boxDims"])
    show "x \<in> colsWithRemovals (step2_col rnd sz boxDims x rs)" if "trackInv sz boxDims rs" for x rs
      by (rule step2_col_covers[OF that pos])
    show "colsWithRemovals rs \<subseteq> colsWithRemovals (step2_col rnd sz boxDims x rs)" for x rs
      using step2_col_cases[of rnd sz boxDims x rs] by (auto simp: removeCell_def Let_def)
    show "trackInv sz boxDims (step2_col rnd sz boxDims x rs)" if "x \<in> set [0..<sz]" "trackInv sz boxDims rs" for x rs
      using that by (intro removalRun_trackInv[OF step2_col_run]) auto
    show "trackInv sz boxDims ?rs1" by (rule t1)
  qed
  then have c2: "{0..<sz} \<subseteq> colsWithRemovals ?rs2" by (simp add: step2_def)
  have "trackInv sz boxDims (fold (step3_box rnd sz boxDims) [0..<?n] ?rs2) \<and>
        set [0..<?n] \<union> boxesWithRemovals ?rs2 \<subseteq> boxesWithRemovals (fold (step3_box rnd sz boxDims) [0..<?n] ?rs2)"
  proof (rule cover_fold_covered[where I = "trackInv sz boxDims"])
    show "x \<in> boxesWithRemovals (step3_box rnd sz boxDims x rs)"
      if "x \<in> set [0..<?n]" "trackInv sz boxDims rs" for x rs
      using that by (intro step3_box_covers[OF bd]) auto
    show "boxesWithRemovals rs \<subseteq> boxesWithRemovals (step3_box rnd sz boxDims x rs)" for x rs
      using step3_box_cases[of rnd sz boxDims x rs] by (auto simp: removeCell_def Let_def)
    show "trackInv sz boxDims (step3_box rnd sz boxDims x rs)" if "x \<in> set [0..<?n]" "trackInv sz boxDims rs" for x rs
      using that by (intro removalRun_trackInv[OF step3_box_run[OF bd]]) auto
    show "trackInv sz boxDims ?rs2" by (rule t2)
  qed
  then have b3: "{0..<?n} \<subseteq> boxesWithRemovals ?rs3" by (simp add: step3_def Let_def)
  note m2 = removalRun_mono[OF step2_run[of sz boxDims ?rs1 rnd]]
  note m3 = removalRun_mono[OF step3_run[OF bd, of ?rs2 rnd]]
  show "trackInv sz boxDims (coverage rnd sz boxDims rs0)" using t3 by (simp add: coverage_def)
  show "{0..<sz} \<subseteq> rowsWithRemovals (coverage rnd sz boxDims rs0)"
    using r1 m2 m3 unfolding coverage_def by blast
  show "{0..<sz} \<subseteq> colsWithRemovals (coverage rnd sz boxDims rs0)"
    using c2 m3 unfolding coverage_def by blast
  show "{0..<?n} \<subseteq> boxesWithRemovals (coverage rnd sz boxDims rs0)"
    using b3 unfolding coverage_def by blast
qed

text \<open>
  So the puzzle that \<open>createPuzzle\<close> returns has an empty cell in every row, in every
  column and in every box that step 3 visits. For the size 6 the boxes 4 and 5 are not
  visited; whether they hold an empty cell depends on the cells that step 4 picks.
\<close>

lemma createPuzzle_covers:
  assumes bd: "getBoxDimensions sz = Inr boxDims" and wf: "wellFormed sz grid st"
  shows "\<exists>p st'. createPuzzle rnd grid sz difficulty st = (Inr p, st') \<and>
           (\<forall>r < sz. \<exists>c < sz. gridOf (heap st') p ! r ! c = 0) \<and>
           (\<forall>c < sz. \<exists>r < sz. gridOf (heap st') p ! r ! c = 0) \<and>
           (\<forall>b < boxesPerRowOf sz boxDims * boxesPerRowOf sz boxDims.
              \<exists>r < sz. \<exists>c < sz. getBoxIndex r c boxDims sz = b \<and> gridOf (heap st') p ! r ! c = 0)"
proof -
  let ?rs0 = "freshCopy sz boxDims grid st"
  let ?cov = "coverage rnd sz boxDims ?rs0"
  define rs where "rs = runSteps rnd sz boxDims (targetCellsToRemove sz difficulty) ?rs0"
  note res = createPuzzle_result[OF bd wf, of rnd difficulty, folded rs_def]
  note cells = run_puzzle_cells[OF wf res(2)]
  note f = freshCopy_fields[OF wf, of boxDims]
  note cv = coverage_covers[OF bd trackInv_freshCopy[of sz boxDims grid st], of rnd]
  have sub0: "removedCells ?rs0 \<subseteq> allCells sz" using f(3) by simp
  have subc: "removedCells ?cov \<subseteq> allCells sz"
    using removalRun_removedCells[OF runSteps_run(1)[OF bd f(3)] sub0] by simp
  have rs4: "rs = step4 sz boxDims (targetCellsToRemove sz difficulty) ?cov"
    by (simp add: rs_def runSteps_def coverage_def)
  have run4: "removalRun sz boxDims ?cov rs"
    unfolding rs4 using step4_result[OF subc targetCellsToRemove_le] by simp
  note m4 = removalRun_mono[OF run4]
  have tr: "trackInv sz boxDims rs" by (rule removalRun_trackInv[OF run4 cv(1)])
  have subr: "removedCells rs \<subseteq> allCells sz"
    using removalRun_removedCells[OF run4 subc] by simp
  have zero: "gridOf (store rs) (puzzle rs) ! r ! c = 0" if "(r, c) \<in> removedCells rs" for r c
  proof -
    from that subr have "r < sz" "c < sz" by (auto simp: allCells_def)
    with cells(5) that show ?thesis by simp
  qed
  have rows: "\<exists>c < sz. gridOf (store rs) (puzzle rs) ! r ! c = 0" if "r < sz" for r
  proof -
    from that cv(2) m4 have "r \<in> rowsWithRemovals rs" by auto
    with tr obtain x where x: "x \<in> removedCells rs" "fst x = r" by (auto simp: trackInv_def)
    then have rc: "(r, snd x) \<in> removedCells rs" by (cases x) simp
    with subr have "snd x < sz" by (auto simp: allCells_def)
    with zero[OF rc] show ?thesis by blast
  qed
  have colsOK: "\<exists>r < sz. gridOf (store rs) (puzzle rs) ! r ! c = 0" if "c < sz" for c
  proof -
    from that cv(3) m4 have "c \<in> colsWithRemovals rs" by auto
    with tr obtain x where x: "x \<in> removedCells rs" "snd x = c" by (auto simp: trackInv_def)
    then have rc: "(fst x, c) \<in> removedCells rs" by (cases x) simp
    with subr have "fst x < sz" by (auto simp: allCells_def)
    with zero[OF rc] show ?thesis by blast
  qed
  have boxes: "\<exists>r < sz. \<exists>c < sz. getBoxIndex r c boxDims sz = b \<and> gridOf (store rs) (puzzle rs) ! r ! c = 0"
    if "b < boxesPerRowOf sz boxDims * boxesPerRowOf sz boxDims" for b
  proof -
    from that cv(4) m4 have "b \<in> boxesWithRemovals rs" by auto
    with tr obtain x where x: "x \<in> removedCells rs" "getBoxIndex (fst x) (snd x) boxDims sz = b"
      by (auto simp: trackInv_def)
    then have rc: "(fst x, snd x) \<in> removedCells rs" by simp
    with subr have "fst x < sz" "snd x < sz" by (auto simp: allCells_def)
    with zero[OF rc] x(2) show ?thesis by blast
  qed
  from res(1) rows colsOK boxes show ?thesis by simp
qed

end
